theory Spec2Isabelle
  imports Complex_Main "HOL-Library.Log_Nat"
begin

section \<open>Python values used by \<open>uiautomator2/xpath.py\<close>\<close>

text \<open>
  A Python \<open>str\<close> is a sequence of code points. The model uses \<^typ>\<open>string\<close> and reads
  each \<^typ>\<open>char\<close> as one code point in the range 0..255, so \<open>length\<close> is \<open>len\<close> and
  \<open>take\<close>/\<open>drop\<close> are slices. Strings with code points above 255 are outside the model.
\<close>

datatype py_error =
    TypeError
  | ValueError
  | IndexError
  | AssertionError
  | RuntimeError
  | OverflowError
  | XMLSyntaxError
  | XPathEvalError
  | XPathElementNotFoundError
  | TimeoutException

definition squote :: char where
  "squote = CHR 0x27"

definition dquote :: char where
  "dquote = CHR 0x22"

definition bslash :: char where
  "bslash = CHR 0x5C"

text \<open>\<open>s.startswith(p)\<close> and \<open>s.endswith(p)\<close>.\<close>

definition startswith :: "string \<Rightarrow> string \<Rightarrow> bool" where
  "startswith s p = (take (length p) s = p)"

definition endswith :: "string \<Rightarrow> string \<Rightarrow> bool" where
  "endswith s p = (length p \<le> length s \<and> drop (length s - length p) s = p)"

text \<open>
  \<open>s[start:stop]\<close> with optional bounds: a negative bound counts from the end, and both
  bounds are clamped to \<open>0..len(s)\<close>.
\<close>

definition slice_index :: "nat \<Rightarrow> int \<Rightarrow> nat" where
  "slice_index n i = (if i < 0 then nat (max 0 (int n + i)) else min n (nat i))"

definition slice :: "int option \<Rightarrow> int option \<Rightarrow> string \<Rightarrow> string" where
  "slice start stop s =
     (let n = length s;
          lo = (case start of None \<Rightarrow> 0 | Some i \<Rightarrow> slice_index n i);
          hi = (case stop of None \<Rightarrow> n | Some j \<Rightarrow> slice_index n j)
      in take (hi - lo) (drop lo s))"

text \<open>\<open>a or b\<close> on strings: the empty string is false.\<close>

definition or_str :: "string \<Rightarrow> string \<Rightarrow> string" where
  "or_str a b = (if a = [] then b else a)"

text \<open>\<open>str(n)\<close> for a non-negative integer, as \<open>format\<close> prints \<open>len(text)\<close>.\<close>

definition digit_char :: "nat \<Rightarrow> char" where
  "digit_char d = ''0123456789'' ! d"

fun str_nat :: "nat \<Rightarrow> string" where
  "str_nat n = (if n < 10 then [digit_char n] else str_nat (n div 10) @ [digit_char (n mod 10)])"

declare str_nat.simps [simp del]

subsection \<open>\<open>repr\<close> of a string\<close>

text \<open>
  \<open>"{!r}".format(s)\<close> is \<open>repr(s)\<close>. CPython picks the quote first: double quotes when
  the string holds a single quote and no double quote, single quotes otherwise. Then every
  character is written: a backslash before the chosen quote and before a backslash;
  \<open>\t\<close>, \<open>\n\<close>, \<open>\r\<close> for tab, line feed and carriage return; \<open>\xNN\<close> for the other
  characters that are not printable (below space, 0x7F, and in the range modelled here
  0x80..0xA0 and 0xAD); everything else unchanged.
\<close>

definition hex_digit :: "nat \<Rightarrow> char" where
  "hex_digit d = ''0123456789abcdef'' ! d"

definition repr_quote :: "string \<Rightarrow> char" where
  "repr_quote s = (if squote \<in> set s \<and> dquote \<notin> set s then dquote else squote)"

definition printable :: "char \<Rightarrow> bool" where
  "printable c =
     (let n = (of_char c :: nat)
      in \<not> (n < 32 \<or> n = 127 \<or> (128 \<le> n \<and> n \<le> 160) \<or> n = 173))"

definition repr_char :: "char \<Rightarrow> char \<Rightarrow> string" where
  "repr_char q c =
     (if c = q \<or> c = bslash then [bslash, c]
      else if c = CHR 0x09 then [bslash, CHR ''t'']
      else if c = CHR 0x0A then [bslash, CHR ''n'']
      else if c = CHR 0x0D then [bslash, CHR ''r'']
      else if \<not> printable c then
        [bslash, CHR ''x'', hex_digit ((of_char c :: nat) div 16), hex_digit ((of_char c :: nat) mod 16)]
      else [c])"

definition repr :: "string \<Rightarrow> string" where
  "repr s = (let q = repr_quote s in [q] @ concat (map (repr_char q) s) @ [q])"

section \<open>The query translator\<close>

text \<open>\<open>safe_xmlstr\<close>: \<open>s.replace("$", "-")\<close>.\<close>

definition safe_xmlstr :: "string \<Rightarrow> string" where
  "safe_xmlstr s = map (\<lambda>c. if c = CHR ''$'' then CHR ''-'' else c) s"

text \<open>\<open>string_quote\<close>: \<open>"{!r}".format(s)\<close>.\<close>

definition string_quote :: "string \<Rightarrow> string" where
  "string_quote s = repr s"

text \<open>
  \<open>strict_xpath\<close>: the \<open>if\<close>/\<open>elif\<close> chain of the source, in its order. The logger call
  has no effect on the result.
\<close>

definition strict_xpath :: "string \<Rightarrow> string" where
  "strict_xpath xpath =
     (if startswith xpath ''//'' then xpath
      else if startswith xpath ''@'' then
        ''//*[@resource-id='' @ repr (slice (Some 1) None xpath) @ '']''
      else if startswith xpath ''^'' then
        ''//*[re:match(text(), '' @ repr xpath @ '')]''
      else if startswith xpath ''%'' \<and> endswith xpath ''%'' then
        ''//*[contains(@text, '' @ string_quote (slice (Some 1) (Some (- 1)) xpath) @ '')]''
      else if startswith xpath ''%'' then
        (let text = slice (Some 1) None xpath
         in ''//*['' @ repr text @ '' = substring(@text, string-length(@text) - ''
              @ str_nat (length text) @ '' + 1)]'')
      else if endswith xpath ''%'' then
        (let text = slice None (Some (- 1)) xpath
         in ''//*[starts-with(@text, '' @ repr text @ '')]'')
      else
        ''//*[@text='' @ string_quote xpath @ '' or @content-desc='' @ string_quote xpath @ '']'')"

text \<open>
  The translator as the specification words it: the contains rule only for strings longer
  than one character. Used to compare with \<open>strict_xpath\<close>.
\<close>

definition strict_xpath_spec :: "string \<Rightarrow> string" where
  "strict_xpath_spec s =
     (if take 2 s = ''//'' then s
      else if s \<noteq> [] \<and> hd s = CHR ''@'' then ''//*[@resource-id='' @ repr (tl s) @ '']''
      else if s \<noteq> [] \<and> hd s = CHR ''^'' then ''//*[re:match(text(), '' @ repr s @ '')]''
      else if s \<noteq> [] \<and> hd s = CHR ''%'' \<and> last s = CHR ''%'' \<and> length s > 1 then
        ''//*[contains(@text, '' @ repr (butlast (tl s)) @ '')]''
      else if s \<noteq> [] \<and> hd s = CHR ''%'' then
        ''//*['' @ repr (tl s) @ '' = substring(@text, string-length(@text) - ''
           @ str_nat (length (tl s)) @ '' + 1)]''
      else if s \<noteq> [] \<and> last s = CHR ''%'' then
        ''//*[starts-with(@text, '' @ repr (butlast s) @ '')]''
      else ''//*[@text='' @ repr s @ '' or @content-desc='' @ repr s @ '']'')"

text \<open>
  The string literals of XPath 1.0, the language of the generated queries:
  \<open>Literal ::= '"' [^"]* '"' | "'" [^']* "'"\<close>. There is no escape character. A string
  is a literal when it opens with a quote, closes with the same quote and has no such quote
  in between; its value is the text in between.
\<close>

definition xpath_literal :: "string \<Rightarrow> string option" where
  "xpath_literal s =
     (case s of
        [] \<Rightarrow> None
      | q # rest \<Rightarrow>
          if (q = squote \<or> q = dquote) \<and> rest \<noteq> [] \<and> last rest = q \<and> q \<notin> set (butlast rest)
          then Some (butlast rest) else None)"

section \<open>Floating-point numbers\<close>

text \<open>
  A finite Python \<open>float\<close> is the rational number it denotes. Every operation computes the
  exact result and rounds it to 53 significant bits, ties to even, as IEEE 754 binary64
  does. The exponent range is not bounded below (results in the subnormal range are
  rounded to 53 bits as well; they are below one in magnitude either way, and the source
  only truncates products to integers). A rounded magnitude of \<open>2 ^ 1024\<close> or more stands
  for an infinity. Infinite and NaN arguments are outside the model.
\<close>

type_synonym pyfloat = rat

definition pow2 :: "int \<Rightarrow> rat" where
  "pow2 e = (if 0 \<le> e then 2 ^ nat e else 1 / 2 ^ nat (- e))"

text \<open>The binary exponent \<open>e\<close> of a positive rational: \<open>2 ^ e \<le> x < 2 ^ (e + 1)\<close>.\<close>

definition binexp :: "rat \<Rightarrow> int" where
  "binexp x =
     (let (p, q) = quotient_of x; k = bitlen p - bitlen q
      in if pow2 k \<le> x then k else k - 1)"

definition round_half_even :: "rat \<Rightarrow> int" where
  "round_half_even r =
     (let f = \<lfloor>r\<rfloor>; d = r - of_int f
      in if d < 1 / 2 then f else if 1 / 2 < d then f + 1 else if even f then f else f + 1)"

definition fround :: "rat \<Rightarrow> pyfloat" where
  "fround x =
     (if x = 0 then 0
      else let s = pow2 (52 - binexp \<bar>x\<bar>) in of_int (round_half_even (x * s)) / s)"

definition float_max :: rat where
  "float_max = 2 ^ 1024"

text \<open>\<open>float(i)\<close>, as \<open>i * x\<close> and \<open>i - x\<close> convert the integer: OverflowError when too large.\<close>

definition float_of_int :: "int \<Rightarrow> py_error + pyfloat" where
  "float_of_int i =
     (let r = fround (of_int i) in if float_max \<le> \<bar>r\<bar> then Inl OverflowError else Inr r)"

definition float_mul :: "pyfloat \<Rightarrow> pyfloat \<Rightarrow> pyfloat" where
  "float_mul a b = fround (a * b)"

definition float_sub :: "pyfloat \<Rightarrow> pyfloat \<Rightarrow> pyfloat" where
  "float_sub a b = fround (a - b)"

text \<open>\<open>int(x)\<close> truncates toward zero; on an infinity it raises OverflowError.\<close>

definition trunc :: "rat \<Rightarrow> int" where
  "trunc x = (if 0 \<le> x then \<lfloor>x\<rfloor> else \<lceil>x\<rceil>)"

definition int_of_float :: "pyfloat \<Rightarrow> py_error + int" where
  "int_of_float x = (if float_max \<le> \<bar>x\<bar> then Inl OverflowError else Inr (trunc x))"

text \<open>\<open>int(i * x)\<close> for an integer \<open>i\<close> and a float \<open>x\<close>.\<close>

definition int_times_float :: "int \<Rightarrow> pyfloat \<Rightarrow> py_error + int" where
  "int_times_float i x =
     (case float_of_int i of Inl e \<Rightarrow> Inl e | Inr f \<Rightarrow> int_of_float (float_mul f x))"

section \<open>The session: device, clock and settings\<close>

text \<open>
  What the device is asked to do, in the order of the calls, and every \<open>time.sleep\<close>
  that returns. Times are in milliseconds.
\<close>

datatype action =
    Click int int
  | Swipe int int int int
  | Sleep int
  | Dump

text \<open>
  The \<open>XPath\<close> object with its device, the clock and the interpreter: \<open>clock\<close> is what
  \<open>time.time()\<close> returns, \<open>screen t\<close> the hierarchy the device dumps at time \<open>t\<close>,
  \<open>dump_ms\<close> the time a dump takes. No click listener is registered.

  A Python \<open>set\<close> of nodes is iterated in an order that the source does not fix: the nodes
  of each resolution are fresh objects, hashed by where they lie in memory. \<open>resolved\<close>
  counts the resolutions made so far, and \<open>set_order k\<close> is the rank by which the
  resolution number \<open>k\<close> iterates a set of nodes, so that two resolutions need not agree.
\<close>

record session =
  clock :: int
  screen :: "int \<Rightarrow> string"
  dump_ms :: nat
  wait_timeout :: int
  click_before_delay :: int
  click_after_delay :: "int option"
  last_hierarchy :: "string option"
  actions :: "action list"
  set_order :: "nat \<Rightarrow> nat \<Rightarrow> nat"
  resolved :: nat

definition sleep :: "int \<Rightarrow> session \<Rightarrow> session" where
  "sleep ms s = s\<lparr>clock := clock s + ms, actions := actions s @ [Sleep ms]\<rparr>"

text \<open>\<open>XPath.dump_hierarchy\<close>: ask the device, keep the text as the last source.\<close>

definition dump_hierarchy :: "session \<Rightarrow> string \<times> session" where
  "dump_hierarchy s =
     (let src = screen s (clock s)
      in (src, s\<lparr>clock := clock s + int (dump_ms s), last_hierarchy := Some src,
                 actions := actions s @ [Dump]\<rparr>))"

text \<open>
  \<open>time.sleep\<close> of a length that the caller sets: ValueError when it is negative,
  OverflowError when it does not fit the 64-bit count of nanoseconds.
\<close>

definition py_sleep :: "int \<Rightarrow> session \<Rightarrow> py_error + session" where
  "py_sleep ms s =
     (if ms < 0 then Inl ValueError
      else if 2 ^ 63 \<le> ms * 1000000 then Inl OverflowError
      else Inr (sleep ms s))"

text \<open>
  \<open>XPath.send_click\<close>: the delay before when it is not zero, the click, the delay after
  when it is set and not zero. An error of the first sleep leaves the click unsent; an
  error of the second comes after the click.
\<close>

definition send_click :: "int \<Rightarrow> int \<Rightarrow> session \<Rightarrow> (py_error + unit) \<times> session" where
  "send_click x y s =
     (case (if click_before_delay s \<noteq> 0 then py_sleep (click_before_delay s) s else Inr s) of
        Inl e \<Rightarrow> (Inl e, s)
      | Inr s1 \<Rightarrow>
          (let s2 = s1\<lparr>actions := actions s1 @ [Click x y]\<rparr>
           in case click_after_delay s2 of
                None \<Rightarrow> (Inr (), s2)
              | Some d \<Rightarrow>
                  if d \<noteq> 0 then
                    (case py_sleep d s2 of Inl e \<Rightarrow> (Inl e, s2) | Inr s3 \<Rightarrow> (Inr (), s3))
                  else (Inr (), s2)))"

definition send_swipe :: "int \<Rightarrow> int \<Rightarrow> int \<Rightarrow> int \<Rightarrow> session \<Rightarrow> session" where
  "send_swipe sx sy tx ty s = s\<lparr>actions := actions s @ [Swipe sx sy tx ty]\<rparr>"

section \<open>Elements and their geometry\<close>

text \<open>
  A node of the parsed tree: its tag, its attributes and the position of its parent in
  document order. \<open>XMLElement\<close> wraps a node; \<open>elem_id\<close> is the node's own position, which
  tells two nodes with the same content apart.
\<close>

record element =
  tag :: string
  attrib :: "(string \<times> string) list"
  parent :: "nat option"

record xml_element =
  elem_id :: nat
  elem :: element

text \<open>
  \<open>re.findall(r"\d+", s)\<close>: the maximal runs of digits, left to right. Among the code
  points modelled, \<open>\d\<close> is \<open>0\<close>..\<open>9\<close>. \<open>digit_runs cur s\<close> scans \<open>s\<close> with the run \<open>cur\<close>
  open.
\<close>

definition is_digit :: "char \<Rightarrow> bool" where
  "is_digit c = (48 \<le> (of_char c :: nat) \<and> (of_char c :: nat) \<le> 57)"

fun digit_runs :: "string \<Rightarrow> string \<Rightarrow> string list" where
  "digit_runs cur [] = (if cur = [] then [] else [cur])"
| "digit_runs cur (c # cs) =
     (if is_digit c then digit_runs (cur @ [c]) cs
      else if cur = [] then digit_runs [] cs
      else cur # digit_runs [] cs)"

definition findall_digits :: "string \<Rightarrow> string list" where
  "findall_digits s = digit_runs [] s"

text \<open>
  \<open>int(s)\<close> on a run of digits: its decimal value. CPython refuses to convert a string of
  more than \<open>sys.int_info.default_max_str_digits = 4300\<close> digits, leading zeros counted,
  with ValueError (since 3.11, and in the later releases of 3.7 to 3.10); the limit is the
  default one.
\<close>

definition digits_value :: "string \<Rightarrow> int" where
  "digits_value s = foldl (\<lambda>a c. 10 * a + (int (of_char c) - 48)) 0 s"

definition int_max_str_digits :: nat where
  "int_max_str_digits = 4300"

definition int_of_digits :: "string \<Rightarrow> py_error + int" where
  "int_of_digits s =
     (if int_max_str_digits < length s then Inl ValueError else Inr (digits_value s))"

text \<open>\<open>map(int, runs)\<close> as the unpacking consumes it: the first failure ends it.\<close>

fun map_int :: "string list \<Rightarrow> py_error + int list" where
  "map_int [] = Inr []"
| "map_int (r # rs) =
     (case int_of_digits r of
        Inl e \<Rightarrow> Inl e
      | Inr i \<Rightarrow> (case map_int rs of Inl e \<Rightarrow> Inl e | Inr js \<Rightarrow> Inr (i # js)))"

text \<open>
  \<open>XMLElement.bounds\<close>: \<open>attrib.get("bounds")\<close> is \<open>None\<close> without the attribute, and
  \<open>re.findall\<close> on \<open>None\<close> raises TypeError; unpacking into four names raises ValueError
  unless there are exactly four values. (The unpacking stops at a fifth value without
  converting a sixth; a failure there is a ValueError as well.)
\<close>

definition bounds :: "xml_element \<Rightarrow> py_error + (int \<times> int \<times> int \<times> int)" where
  "bounds el =
     (case map_of (attrib (elem el)) ''bounds'' of
        None \<Rightarrow> Inl TypeError
      | Some b \<Rightarrow>
          (case map_int (findall_digits b) of
             Inl e \<Rightarrow> Inl e
           | Inr [lx, ly, rx, ry] \<Rightarrow> Inr (lx, ly, rx, ry)
           | Inr _ \<Rightarrow> Inl ValueError))"

definition rect :: "xml_element \<Rightarrow> py_error + (int \<times> int \<times> int \<times> int)" where
  "rect el =
     (case bounds el of
        Inl e \<Rightarrow> Inl e
      | Inr (lx, ly, rx, ry) \<Rightarrow> Inr (lx, ly, rx - lx, ry - ly))"

definition offset :: "xml_element \<Rightarrow> pyfloat \<Rightarrow> pyfloat \<Rightarrow> py_error + (int \<times> int)" where
  "offset el px py =
     (case rect el of
        Inl e \<Rightarrow> Inl e
      | Inr (x, y, width, height) \<Rightarrow>
          (case int_times_float width px of
             Inl e \<Rightarrow> Inl e
           | Inr dx \<Rightarrow>
               (case int_times_float height py of
                  Inl e \<Rightarrow> Inl e
                | Inr dy \<Rightarrow> Inr (x + dx, y + dy))))"

definition center :: "xml_element \<Rightarrow> py_error + (int \<times> int)" where
  "center el = offset el (1 / 2) (1 / 2)"

text \<open>\<open>XMLElement.click\<close>.\<close>

definition click_element :: "xml_element \<Rightarrow> session \<Rightarrow> (py_error + unit) \<times> session" where
  "click_element el s =
     (case center el of Inl e \<Rightarrow> (Inl e, s) | Inr (x, y) \<Rightarrow> send_click x y s)"

text \<open>
  \<open>XMLElement.swipe\<close>: the assertion on the scale, the bounds, the two offsets, the four
  edge points, and the dispatch on the direction, in the order of the source.
\<close>

definition swipe :: "xml_element \<Rightarrow> string \<Rightarrow> pyfloat \<Rightarrow> session \<Rightarrow> py_error + session" where
  "swipe el direction scale s =
     (if \<not> (0 < scale \<and> scale \<le> 1) then Inl AssertionError
      else case bounds el of
        Inl e \<Rightarrow> Inl e
      | Inr (lx, ly, rx, ry) \<Rightarrow>
          (let width = rx - lx; height = ry - ly
           in case int_times_float width (float_sub 1 scale) of
                Inl e \<Rightarrow> Inl e
              | Inr hw \<Rightarrow>
                  (case int_times_float height (float_sub 1 scale) of
                     Inl e \<Rightarrow> Inl e
                   | Inr vh \<Rightarrow>
                       (let h_offset = hw div 2;
                            v_offset = vh div 2;
                            left = (lx + h_offset, ly + height div 2);
                            up = (lx + width div 2, ly + v_offset);
                            right = (rx - h_offset, ly + height div 2);
                            bottom = (lx + width div 2, ry - v_offset)
                        in if direction = ''left'' then
                             Inr (send_swipe (fst right) (snd right) (fst left) (snd left) s)
                           else if direction = ''right'' then
                             Inr (send_swipe (fst left) (snd left) (fst right) (snd right) s)
                           else if direction = ''up'' then
                             Inr (send_swipe (fst bottom) (snd bottom) (fst up) (snd up) s)
                           else if direction = ''down'' then
                             Inr (send_swipe (fst up) (snd up) (fst bottom) (snd bottom) s)
                           else Inl RuntimeError))))"

text \<open>
  The offset as the specification words it, with \<open>floor\<close> in place of \<open>int\<close>. Used to
  compare with \<open>offset\<close>.
\<close>

definition floor_times_float :: "int \<Rightarrow> pyfloat \<Rightarrow> py_error + int" where
  "floor_times_float i x =
     (case float_of_int i of
        Inl e \<Rightarrow> Inl e
      | Inr f \<Rightarrow> if float_max \<le> \<bar>float_mul f x\<bar> then Inl OverflowError else Inr \<lfloor>float_mul f x\<rfloor>)"

definition offset_spec :: "xml_element \<Rightarrow> pyfloat \<Rightarrow> pyfloat \<Rightarrow> py_error + (int \<times> int)" where
  "offset_spec el px py =
     (case rect el of
        Inl e \<Rightarrow> Inl e
      | Inr (x, y, width, height) \<Rightarrow>
          (case floor_times_float width px of
             Inl e \<Rightarrow> Inl e
           | Inr dx \<Rightarrow>
               (case floor_times_float height py of
                  Inl e \<Rightarrow> Inl e
                | Inr dy \<Rightarrow> Inr (x + dx, y + dy))))"

text \<open>
  Concrete inputs: a node with a given bounds attribute, and a session at rest, in which
  every set is iterated in document order.
\<close>

definition node_with_bounds :: "string \<Rightarrow> xml_element" where
  "node_with_bounds b =
     \<lparr>elem_id = 0, elem = \<lparr>tag = ''node'', attrib = [(''bounds'', b)], parent = None\<rparr>\<rparr>"

definition idle_session :: session where
  "idle_session =
     \<lparr>clock = 0, screen = (\<lambda>t. []), dump_ms = 0, wait_timeout = 20000,
      click_before_delay = 0, click_after_delay = None, last_hierarchy = None, actions = [],
      set_order = (\<lambda>k i. i), resolved = 0\<rparr>"

section \<open>Documents, the libraries and the selector\<close>

text \<open>
  The parsed tree is the list of its elements in document order; an element is referred
  to by its position, which stands for the identity of the lxml object.
\<close>

type_synonym document = "element list"

text \<open>
  What the source takes from lxml, as parameters: \<open>etree.fromstring\<close> (XMLSyntaxError on
  malformed text), the check lxml makes when a tag is assigned (ValueError on an invalid
  name), and the evaluation of an XPath expression on a tree (the matching nodes in
  document order, or XPathEvalError).
\<close>

record runtime =
  fromstring :: "string \<Rightarrow> py_error + document"
  tag_valid :: "string \<Rightarrow> bool"
  xpath_eval :: "document \<Rightarrow> string \<Rightarrow> py_error + nat list"

text \<open>\<open>root.xpath("//node")\<close>: the elements named \<open>node\<close>, in document order.\<close>

definition node_indices :: "document \<Rightarrow> nat list" where
  "node_indices d = filter (\<lambda>i. tag (d ! i) = ''node'') [0..<length d]"

text \<open>\<open>attrib.pop(k, default)\<close>: the value and the attributes without the key.\<close>

definition pop_attr ::
  "string \<Rightarrow> string \<Rightarrow> (string \<times> string) list \<Rightarrow> string \<times> (string \<times> string) list" where
  "pop_attr k dflt a =
     (case map_of a k of
        None \<Rightarrow> (dflt, a)
      | Some v \<Rightarrow> (v, filter (\<lambda>kv. fst kv \<noteq> k) a))"

text \<open>\<open>node.tag = safe_xmlstr(node.attrib.pop("class", "")) or "node"\<close>.\<close>

definition retag_node :: "runtime \<Rightarrow> element \<Rightarrow> py_error + element" where
  "retag_node R n =
     (let (c, a) = pop_attr ''class'' [] (attrib n);
          t = or_str (safe_xmlstr c) ''node''
      in if tag_valid R t then Inr (n\<lparr>tag := t, attrib := a\<rparr>) else Inl ValueError)"

text \<open>The loop over the nodes found, each changed in place.\<close>

fun retag_all :: "runtime \<Rightarrow> nat list \<Rightarrow> document \<Rightarrow> py_error + document" where
  "retag_all R [] d = Inr d"
| "retag_all R (i # is) d =
     (case retag_node R (d ! i) of
        Inl e \<Rightarrow> Inl e
      | Inr n \<Rightarrow> retag_all R is (d[i := n]))"

text \<open>The loop over the queries: each is evaluated on the tree, the first error ends it.\<close>

fun eval_all :: "runtime \<Rightarrow> document \<Rightarrow> string list \<Rightarrow> py_error + nat list list" where
  "eval_all R d [] = Inr []"
| "eval_all R d (q # qs) =
     (case xpath_eval R d q of
        Inl e \<Rightarrow> Inl e
      | Inr m \<Rightarrow>
          (case eval_all R d qs of
             Inl e \<Rightarrow> Inl e
           | Inr ms \<Rightarrow> Inr (m # ms)))"

text \<open>
  \<open>set(x).intersection(y)\<close>, listed in the order its elements are iterated, which is by
  the rank \<open>rk\<close> of the resolution at hand, and \<open>functools.reduce\<close> of it without an
  initial value: TypeError on no match set, the single match set itself (a list, in
  document order) when there is one.
\<close>

definition set_intersection :: "(nat \<Rightarrow> nat) \<Rightarrow> nat list \<Rightarrow> nat list \<Rightarrow> nat list" where
  "set_intersection rk x y = sort_key rk (remdups (filter (\<lambda>n. n \<in> set y) x))"

definition reduce_intersection :: "(nat \<Rightarrow> nat) \<Rightarrow> nat list list \<Rightarrow> py_error + nat list" where
  "reduce_intersection rk ms =
     (case ms of
        [] \<Rightarrow> Inl TypeError
      | m # rest \<Rightarrow> Inr (foldl (set_intersection rk) m rest))"

text \<open>
  The part of \<open>XPathSelector.all\<close> after the snapshot is chosen: parse, retag, evaluate,
  intersect, wrap.
\<close>

definition resolve ::
  "runtime \<Rightarrow> (nat \<Rightarrow> nat) \<Rightarrow> string \<Rightarrow> string list \<Rightarrow> py_error + xml_element list" where
  "resolve R rk xml qs =
     (case fromstring R xml of
        Inl e \<Rightarrow> Inl e
      | Inr tree \<Rightarrow>
          (case retag_all R (node_indices tree) tree of
             Inl e \<Rightarrow> Inl e
           | Inr d \<Rightarrow>
               (case eval_all R d qs of
                  Inl e \<Rightarrow> Inl e
                | Inr ms \<Rightarrow>
                    (case reduce_intersection rk ms of
                       Inl e \<Rightarrow> Inl e
                     | Inr ns \<Rightarrow> Inr (map (\<lambda>i. \<lparr>elem_id = i, elem = d ! i\<rparr>) ns)))))"

text \<open>The selector: its queries, the frozen snapshot if any, the last snapshot used.\<close>

record selector =
  xpath_list :: "string list"
  source :: "string option"
  last_source :: "string option"

definition selector_init :: "string \<Rightarrow> string option \<Rightarrow> selector" where
  "selector_init xpath src =
     \<lparr>xpath_list = [strict_xpath xpath], source = src, last_source = None\<rparr>"

text \<open>\<open>XPathSelector.xpath\<close>: translate and append.\<close>

definition add_xpath :: "string \<Rightarrow> selector \<Rightarrow> selector" where
  "add_xpath xpath sel = sel\<lparr>xpath_list := xpath_list sel @ [strict_xpath xpath]\<rparr>"

text \<open>A snapshot that is \<open>None\<close> or empty is false in \<open>a or b\<close>.\<close>

definition truthy :: "string option \<Rightarrow> bool" where
  "truthy x = (case x of None \<Rightarrow> False | Some v \<Rightarrow> v \<noteq> [])"

text \<open>
  \<open>XPathSelector.all(source)\<close>:
  \<open>source or self._source or self._parent.dump_hierarchy()\<close>, kept as the last source,
  and one more resolution made, with the set order of its number.
\<close>

definition selector_all ::
  "runtime \<Rightarrow> string option \<Rightarrow> selector \<Rightarrow> session
     \<Rightarrow> (py_error + xml_element list) \<times> selector \<times> session" where
  "selector_all R src sel s =
     (let (xml_content, s') =
            (if truthy src then (the src, s)
             else if truthy (source sel) then (the (source sel), s)
             else dump_hierarchy s)
      in (resolve R (set_order s' (resolved s')) xml_content (xpath_list sel),
          sel\<lparr>last_source := Some xml_content\<rparr>, s'\<lparr>resolved := resolved s' + 1\<rparr>))"

text \<open>\<open>exists\<close>: \<open>len(self.all()) > 0\<close>.\<close>

definition selector_exists ::
  "runtime \<Rightarrow> selector \<Rightarrow> session \<Rightarrow> (py_error + bool) \<times> selector \<times> session" where
  "selector_exists R sel s =
     (case selector_all R None sel s of
        (Inl e, sel', s') \<Rightarrow> (Inl e, sel', s')
      | (Inr r, sel', s') \<Rightarrow> (Inr (r \<noteq> []), sel', s'))"

text \<open>\<open>get_last_match\<close>: \<open>self.all(self._last_source)[0]\<close>.\<close>

definition get_last_match ::
  "runtime \<Rightarrow> selector \<Rightarrow> session \<Rightarrow> (py_error + xml_element) \<times> selector \<times> session" where
  "get_last_match R sel s =
     (case selector_all R (last_source sel) sel s of
        (Inl e, sel', s') \<Rightarrow> (Inl e, sel', s')
      | (Inr [], sel', s') \<Rightarrow> (Inl IndexError, sel', s')
      | (Inr (el # _), sel', s') \<Rightarrow> (Inr el, sel', s'))"

text \<open>\<open>timeout or default\<close>: \<open>None\<close> and zero are false.\<close>

definition or_timeout :: "int option \<Rightarrow> int \<Rightarrow> int" where
  "or_timeout timeout dflt = (case timeout of None \<Rightarrow> dflt | Some t \<Rightarrow> if t = 0 then dflt else t)"

text \<open>
  \<open>wait\<close>: the deadline once, then the loop \<open>while time.time() < deadline\<close>; \<open>None\<close> is
  the absence of a match.
\<close>

function wait_loop ::
  "runtime \<Rightarrow> int \<Rightarrow> selector \<Rightarrow> session
     \<Rightarrow> (py_error + xml_element option) \<times> selector \<times> session" where
  "wait_loop R deadline sel s =
     (if clock s < deadline then
        (case selector_exists R sel s of
           (Inl e, sel', s') \<Rightarrow> (Inl e, sel', s')
         | (Inr found, sel', s') \<Rightarrow>
             if found then
               (case get_last_match R sel' s' of
                  (Inl e, sel'', s'') \<Rightarrow> (Inl e, sel'', s'')
                | (Inr el, sel'', s'') \<Rightarrow> (Inr (Some el), sel'', s''))
             else wait_loop R deadline sel' (sleep 200 s'))
      else (Inr None, sel, s))"
  by pat_completeness auto
termination
  apply (relation "measure (\<lambda>(R, deadline, sel, s). nat (deadline - clock s))")
   apply simp
  apply (auto simp: sleep_def selector_exists_def selector_all_def dump_hierarchy_def Let_def
      split: if_splits prod.splits sum.splits)
  done

declare wait_loop.simps [simp del]

definition wait ::
  "runtime \<Rightarrow> int option \<Rightarrow> selector \<Rightarrow> session
     \<Rightarrow> (py_error + xml_element option) \<times> selector \<times> session" where
  "wait R timeout sel s = wait_loop R (clock s + or_timeout timeout (wait_timeout s)) sel s"

text \<open>\<open>get\<close>: wait with the global timeout; no match is XPathElementNotFoundError.\<close>

definition get ::
  "runtime \<Rightarrow> selector \<Rightarrow> session \<Rightarrow> (py_error + xml_element) \<times> selector \<times> session" where
  "get R sel s =
     (case wait R (Some (wait_timeout s)) sel s of
        (Inl e, sel', s') \<Rightarrow> (Inl e, sel', s')
      | (Inr None, sel', s') \<Rightarrow> (Inl XPathElementNotFoundError, sel', s')
      | (Inr (Some _), sel', s') \<Rightarrow> get_last_match R sel' s')"

text \<open>\<open>click_nowait\<close>: \<open>x, y = self.all()[0].center()\<close>, then the click.\<close>

definition click_nowait ::
  "runtime \<Rightarrow> selector \<Rightarrow> session \<Rightarrow> (py_error + unit) \<times> selector \<times> session" where
  "click_nowait R sel s =
     (case selector_all R None sel s of
        (Inl e, sel', s') \<Rightarrow> (Inl e, sel', s')
      | (Inr [], sel', s') \<Rightarrow> (Inl IndexError, sel', s')
      | (Inr (el # _), sel', s') \<Rightarrow>
          (case center el of
             Inl e \<Rightarrow> (Inl e, sel', s')
           | Inr (x, y) \<Rightarrow> (case send_click x y s' of (res, s'') \<Rightarrow> (res, sel', s''))))"

text \<open>
  The match set of one translated query resolved on its own against a snapshot (empty when
  the resolution fails). With one query no set is built, and the set order plays no part.
\<close>

definition result_set :: "runtime \<Rightarrow> string \<Rightarrow> string \<Rightarrow> xml_element set" where
  "result_set R xml q = (case resolve R (\<lambda>i. i) xml [q] of Inl e \<Rightarrow> {} | Inr r \<Rightarrow> set r)"

section \<open>A concrete runtime\<close>

text \<open>
  For concrete inputs: the XPath meaning of \<open>//*[P]\<close> (the elements that satisfy
  \<open>P\<close>, in document order) and of the test \<open>@k='v'\<close> (the attribute is there with that
  value); two snapshots with the trees lxml parses them to; the names XML allows as
  tags, among ASCII characters; and a runtime that knows these snapshots and the queries
  used below, each with its XPath meaning.
\<close>

definition select_where :: "(element \<Rightarrow> bool) \<Rightarrow> document \<Rightarrow> nat list" where
  "select_where P d = filter (\<lambda>i. P (d ! i)) [0..<length d]"

definition attr_is :: "string \<Rightarrow> string \<Rightarrow> element \<Rightarrow> bool" where
  "attr_is k v n = (map_of (attrib n) k = Some v)"

definition xml_attr :: "string \<Rightarrow> string \<Rightarrow> string" where
  "xml_attr k v = '' '' @ k @ ''='' @ [dquote] @ v @ [dquote]"

definition demo_snapshot :: string where
  "demo_snapshot =
     ''<hierarchy'' @ xml_attr ''rotation'' ''0'' @ ''>''
     @ ''<node'' @ xml_attr ''text'' ''Settings'' @ xml_attr ''resource-id'' ''id/title''
       @ xml_attr ''class'' ''android.widget.TextView'' @ xml_attr ''bounds'' ''[0,0][200,50]''
       @ ''/>''
     @ ''<node'' @ xml_attr ''text'' ''Wi-Fi'' @ xml_attr ''resource-id'' ''id/title''
       @ xml_attr ''class'' ''android.widget.Switch$Thumb''
       @ xml_attr ''bounds'' ''[0,50][200,100]'' @ ''/>''
     @ ''</hierarchy>''"

definition demo_tree :: document where
  "demo_tree =
     [\<lparr>tag = ''hierarchy'', attrib = [(''rotation'', ''0'')], parent = None\<rparr>,
      \<lparr>tag = ''node'',
       attrib = [(''text'', ''Settings''), (''resource-id'', ''id/title''),
                 (''class'', ''android.widget.TextView''), (''bounds'', ''[0,0][200,50]'')],
       parent = Some 0\<rparr>,
      \<lparr>tag = ''node'',
       attrib = [(''text'', ''Wi-Fi''), (''resource-id'', ''id/title''),
                 (''class'', ''android.widget.Switch$Thumb''), (''bounds'', ''[0,50][200,100]'')],
       parent = Some 0\<rparr>]"

definition odd_snapshot :: string where
  "odd_snapshot =
     ''<hierarchy'' @ xml_attr ''class'' ''Screen'' @ ''>''
     @ ''<node'' @ xml_attr ''text'' ''Settings'' @ xml_attr ''class'' ''a.B$C'' @ ''/>''
     @ ''</hierarchy>''"

definition odd_tree :: document where
  "odd_tree =
     [\<lparr>tag = ''hierarchy'', attrib = [(''class'', ''Screen'')], parent = None\<rparr>,
      \<lparr>tag = ''node'', attrib = [(''text'', ''Settings''), (''class'', ''a.B$C'')],
       parent = Some 0\<rparr>]"

definition name_start :: "char \<Rightarrow> bool" where
  "name_start c =
     (let n = (of_char c :: nat) in (65 \<le> n \<and> n \<le> 90) \<or> (97 \<le> n \<and> n \<le> 122) \<or> n = 95)"

definition name_char :: "char \<Rightarrow> bool" where
  "name_char c = (name_start c \<or> is_digit c \<or> c = CHR ''.'' \<or> c = CHR ''-'')"

definition xml_name :: "string \<Rightarrow> bool" where
  "xml_name t = (case t of [] \<Rightarrow> False | c # cs \<Rightarrow> name_start c \<and> list_all name_char cs)"

definition class_query :: "string \<Rightarrow> string" where
  "class_query v = ''//*[@class='' @ [squote] @ v @ [squote] @ '']''"

definition demo_xpath :: "document \<Rightarrow> string \<Rightarrow> py_error + nat list" where
  "demo_xpath d q =
     (if q = ''//*'' then Inr (select_where (\<lambda>n. True) d)
      else if q = strict_xpath ''Settings'' then
        Inr (select_where (\<lambda>n. attr_is ''text'' ''Settings'' n \<or> attr_is ''content-desc'' ''Settings'' n) d)
      else if q = strict_xpath ''Missing'' then
        Inr (select_where (\<lambda>n. attr_is ''text'' ''Missing'' n \<or> attr_is ''content-desc'' ''Missing'' n) d)
      else if q = strict_xpath ''@id/title'' then
        Inr (select_where (attr_is ''resource-id'' ''id/title'') d)
      else if q = class_query ''Screen'' then
        Inr (select_where (attr_is ''class'' ''Screen'') d)
      else Inl XPathEvalError)"

definition demo_runtime :: runtime where
  "demo_runtime =
     \<lparr>fromstring = (\<lambda>s. if s = demo_snapshot then Inr demo_tree
                         else if s = odd_snapshot then Inr odd_tree
                         else Inl XMLSyntaxError),
      tag_valid = xml_name,
      xpath_eval = demo_xpath\<rparr>"

text \<open>
  A session whose device always shows the first snapshot, with a given default timeout,
  and a runtime for which every dump parses to the tree of that snapshot.
\<close>

definition demo_session :: "int \<Rightarrow> session" where
  "demo_session tmo = idle_session\<lparr>wait_timeout := tmo, screen := (\<lambda>t. demo_snapshot)\<rparr>"



text \<open>
  A session at rest in which the resolutions of odd number iterate their sets of nodes from
  the last node to the first, and the others from the first to the last.
\<close>

definition turning_session :: session where
  "turning_session = idle_session\<lparr>set_order := (\<lambda>k i. if even k then i else 2 - i)\<rparr>"

text \<open>\<open>attrib.get("class", "")\<close>: the class of a node, empty without the attribute.\<close>

abbreviation class_attr :: "element \<Rightarrow> string" where
  "class_attr n \<equiv> (case map_of (attrib n) ''class'' of None \<Rightarrow> [] | Some c \<Rightarrow> c)"

section \<open>Properties of the translator\<close>

lemma startswith_1: "startswith s [c] = (s \<noteq> [] \<and> hd s = c)"
  by (cases s) (auto simp: startswith_def)

lemma startswith_2: "startswith s [c, d] = (take 2 s = [c, d])"
  by (simp add: startswith_def numeral_2_eq_2)

lemma endswith_1: "endswith s [c] = (s \<noteq> [] \<and> last s = c)"
proof (cases s rule: rev_cases)
  case Nil
  then show ?thesis by (simp add: endswith_def)
next
  case (snoc ys y)
  then show ?thesis by (auto simp: endswith_def)
qed

lemma slice_from_1: "slice (Some 1) None s = tl s"
  by (cases s) (auto simp: slice_def slice_index_def)

lemma slice_to_last: "slice None (Some (- 1)) s = butlast s"
  by (cases s rule: rev_cases) (auto simp: slice_def slice_index_def butlast_conv_take)

lemma slice_inner: "slice (Some 1) (Some (- 1)) s = butlast (tl s)"
  by (cases s) (auto simp: slice_def slice_index_def butlast_conv_take Let_def)

lemmas translator_simps =
  strict_xpath_def string_quote_def startswith_1 startswith_2 endswith_1
  slice_from_1 slice_to_last slice_inner

lemmas repr_simps =
  repr_def repr_quote_def repr_char_def printable_def squote_def dquote_def bslash_def
  hex_digit_def digit_char_def Let_def

lemma rule_passthrough: "strict_xpath (''//'' @ r) = ''//'' @ r"
  by (simp add: strict_xpath_def startswith_def)

lemma rule_resource_id: "strict_xpath (CHR ''@'' # r) = ''//*[@resource-id='' @ repr r @ '']''"
  by (simp add: translator_simps)

lemma rule_regex:
  "strict_xpath (CHR ''^'' # r) = ''//*[re:match(text(), '' @ repr (CHR ''^'' # r) @ '')]''"
  by (simp add: translator_simps)

lemma rule_contains:
  "strict_xpath (CHR ''%'' # m @ ''%'') = ''//*[contains(@text, '' @ repr m @ '')]''"
  by (simp add: translator_simps)

lemma rule_contains_single:
  "strict_xpath ''%'' = ''//*[contains(@text, '' @ repr [] @ '')]''"
  by (simp add: translator_simps)

lemma rule_ends_with:
  "r \<noteq> [] \<Longrightarrow> last r \<noteq> CHR ''%'' \<Longrightarrow>
   strict_xpath (CHR ''%'' # r) =
     ''//*['' @ repr r @ '' = substring(@text, string-length(@text) - ''
        @ str_nat (length r) @ '' + 1)]''"
  by (simp add: translator_simps)

lemma rule_starts_with:
  "x \<noteq> [] \<Longrightarrow> hd x \<notin> {CHR ''@'', CHR ''^'', CHR ''%''} \<Longrightarrow> take 2 x \<noteq> ''//'' \<Longrightarrow>
   strict_xpath (x @ ''%'') = ''//*[starts-with(@text, '' @ repr x @ '')]''"
  apply (cases x)
   apply simp
  subgoal for a list
    apply (cases list)
     apply (auto simp add: translator_simps)
    done
  done

lemma rule_exact:
  "x = [] \<or> (hd x \<notin> {CHR ''@'', CHR ''^'', CHR ''%''} \<and> take 2 x \<noteq> ''//'' \<and> last x \<noteq> CHR ''%'') \<Longrightarrow>
   strict_xpath x = ''//*[@text='' @ repr x @ '' or @content-desc='' @ repr x @ '']''"
  by (auto simp add: translator_simps)

lemma percent_len:
  assumes "s \<noteq> ''%''"
  shows "(s \<noteq> [] \<and> hd s = CHR ''%'' \<and> last s = CHR ''%'' \<and> length s > 1)
       = ((s \<noteq> [] \<and> hd s = CHR ''%'') \<and> (s \<noteq> [] \<and> last s = CHR ''%''))"
proof (cases s)
  case Nil
  then show ?thesis by simp
next
  case (Cons a list)
  with assms show ?thesis by (cases list) auto
qed

text \<open>Away from the one-character string \<open>%\<close> the translator is the specification's.\<close>

lemma strict_xpath_spec_eq:
  assumes "s \<noteq> ''%''"
  shows "strict_xpath s = strict_xpath_spec s"
  unfolding strict_xpath_def strict_xpath_spec_def string_quote_def startswith_1 startswith_2
    endswith_1 slice_from_1 slice_to_last slice_inner Let_def
  by (simp only: percent_len [OF assms])

text \<open>
  C2, as stated: the contains rule needs a length above one, so the string \<open>%\<close> falls to a
  later rule. The code has no such guard: \<open>%\<close> starts and ends with \<open>%\<close> and is translated
  by the contains rule, with the empty text between.
\<close>

theorem strict_xpath_percent_counterexample:
  "strict_xpath ''%'' = ''//*[contains(@text, '' @ [squote, squote] @ '')]''
   \<and> strict_xpath ''%'' \<noteq> strict_xpath_spec ''%''"
  by (simp add: translator_simps strict_xpath_spec_def repr_def repr_quote_def str_nat.simps)

text \<open>
  C2, amended: the seven rules in their order, the contains rule for every string that
  starts and ends with \<open>%\<close>, the one-character string \<open>%\<close> included. Each rule is given
  by the shape of the input: \<open>//r\<close> is returned unchanged; \<open>@r\<close> compares the resource-id
  with \<open>r\<close>; \<open>^r\<close> matches the text against the whole input; \<open>%r%\<close> and \<open>%\<close> test that the
  text contains \<open>r\<close> (nothing, for \<open>%\<close>); \<open>%r\<close> with \<open>r\<close> not empty and not ending in \<open>%\<close>
  compares \<open>r\<close> with the last \<open>len(r)\<close> characters of the text; \<open>r%\<close> with \<open>r\<close> not
  empty and not opened by \<open>//\<close>, \<open>@\<close>, \<open>^\<close> or \<open>%\<close> is starts-with on \<open>r\<close>; every
  other string is compared with the text or the content description.
\<close>

theorem strict_xpath_rules:
  "strict_xpath (''//'' @ r) = ''//'' @ r
   \<and> strict_xpath (CHR ''@'' # r) = ''//*[@resource-id='' @ repr r @ '']''
   \<and> strict_xpath (CHR ''^'' # r) = ''//*[re:match(text(), '' @ repr (CHR ''^'' # r) @ '')]''
   \<and> strict_xpath (CHR ''%'' # r @ ''%'') = ''//*[contains(@text, '' @ repr r @ '')]''
   \<and> strict_xpath ''%'' = ''//*[contains(@text, '' @ repr [] @ '')]''
   \<and> (r \<noteq> [] \<and> last r \<noteq> CHR ''%'' \<longrightarrow>
        strict_xpath (CHR ''%'' # r) =
          ''//*['' @ repr r @ '' = substring(@text, string-length(@text) - ''
             @ str_nat (length r) @ '' + 1)]'')
   \<and> (r \<noteq> [] \<and> hd r \<notin> {CHR ''@'', CHR ''^'', CHR ''%''} \<and> take 2 r \<noteq> ''//'' \<longrightarrow>
        strict_xpath (r @ ''%'') = ''//*[starts-with(@text, '' @ repr r @ '')]'')
   \<and> (r = [] \<or> (hd r \<notin> {CHR ''@'', CHR ''^'', CHR ''%''} \<and> take 2 r \<noteq> ''//''
                  \<and> last r \<noteq> CHR ''%'') \<longrightarrow>
        strict_xpath r = ''//*[@text='' @ repr r @ '' or @content-desc='' @ repr r @ '']'')"
  using rule_passthrough [of r] rule_resource_id [of r] rule_regex [of r] rule_contains [of r]
    rule_contains_single rule_ends_with [of r] rule_starts_with [of r] rule_exact [of r]
  by blast

theorem strict_xpath_rules_witness:
  "strict_xpath ''%abc'' =
     ''//*['' @ [squote] @ ''abc'' @ [squote]
       @ '' = substring(@text, string-length(@text) - 3 + 1)]''
   \<and> strict_xpath ''abc%'' = ''//*[starts-with(@text, '' @ [squote] @ ''abc'' @ [squote] @ '')]''
   \<and> strict_xpath ''abc'' =
       ''//*[@text='' @ [squote] @ ''abc'' @ [squote] @ '' or @content-desc=''
         @ [squote] @ ''abc'' @ [squote] @ '']''"
  using strict_xpath_rules [of "''abc''"]
  by (simp add: repr_simps str_nat.simps)

section \<open>Quoting of literals\<close>

text \<open>
  Where \<open>repr\<close> adds nothing, the quoted text is an XPath literal of the original string:
  printable characters, no backslash, and not both kinds of quote.
\<close>

lemma repr_char_plain:
  "printable c \<Longrightarrow> c \<noteq> bslash \<Longrightarrow> c \<noteq> q \<Longrightarrow> repr_char q c = [c]"
  by (auto simp: repr_char_def printable_def)

lemma concat_singletons: "\<forall>c \<in> set s. f c = [c] \<Longrightarrow> concat (map f s) = s"
  by (induction s) auto

lemma repr_plain:
  assumes "\<forall>c \<in> set s. printable c \<and> c \<noteq> bslash" and "squote \<notin> set s \<or> dquote \<notin> set s"
  shows "repr s = [repr_quote s] @ s @ [repr_quote s]" and "repr_quote s \<notin> set s"
proof -
  show q: "repr_quote s \<notin> set s"
    using assms(2) by (auto simp: repr_quote_def)
  have "\<forall>c \<in> set s. repr_char (repr_quote s) c = [c]"
    using assms(1) q by (auto intro!: repr_char_plain)
  then have "concat (map (repr_char (repr_quote s)) s) = s"
    by (rule concat_singletons)
  then show "repr s = [repr_quote s] @ s @ [repr_quote s]"
    by (simp add: repr_def Let_def)
qed

lemma string_quote_plain:
  assumes "\<forall>c \<in> set s. printable c \<and> c \<noteq> bslash" and "squote \<notin> set s \<or> dquote \<notin> set s"
  shows "xpath_literal (string_quote s) = Some s"
  using repr_plain [OF assms]
  by (auto simp: xpath_literal_def string_quote_def repr_quote_def)

text \<open>
  C8 at two inputs. A backslash is doubled, so the literal in the query is not the
  original string; with both kinds of quote in the string, \<open>repr\<close> writes a backslash
  before the single quote, and the result is no XPath literal at all.
\<close>

theorem string_quote_not_literal:
  "strict_xpath [CHR ''a'', bslash, CHR ''b''] =
     ''//*[@text='' @ [squote, CHR ''a'', bslash, bslash, CHR ''b'', squote]
       @ '' or @content-desc='' @ [squote, CHR ''a'', bslash, bslash, CHR ''b'', squote] @ '']''
   \<and> xpath_literal (string_quote [CHR ''a'', bslash, CHR ''b''])
       = Some [CHR ''a'', bslash, bslash, CHR ''b'']
   \<and> string_quote [CHR ''a'', squote, dquote] = [squote, CHR ''a'', bslash, squote, dquote, squote]
   \<and> xpath_literal (string_quote [CHR ''a'', squote, dquote]) = None"
  by (simp add: translator_simps xpath_literal_def repr_simps)

section \<open>Rounding to a float\<close>

lemma pow2_powi: "pow2 e = 2 powi e"
  by (simp add: pow2_def power_int_def field_simps)

lemma pow2_pos: "0 < pow2 e"
  by (simp add: pow2_powi)

lemma pow2_add: "pow2 (a + b) = pow2 a * pow2 b"
  by (simp add: pow2_powi power_int_add)

lemma pow2_less_iff: "pow2 a < pow2 b \<longleftrightarrow> a < b"
proof
  assume "pow2 a < pow2 b"
  show "a < b"
  proof (rule ccontr)
    assume "\<not> a < b"
    then have "b \<le> a" by simp
    then have "pow2 b \<le> pow2 a"
      unfolding pow2_powi by (intro power_int_increasing) auto
    with \<open>pow2 a < pow2 b\<close> show False by simp
  qed
next
  assume "a < b"
  then show "pow2 a < pow2 b"
    unfolding pow2_powi by (intro power_int_strict_increasing) auto
qed

lemma pow2_nat: "0 \<le> e \<Longrightarrow> pow2 e = 2 ^ nat e"
  by (simp add: pow2_def)

lemma of_int_bitlen:
  assumes "0 < p"
  shows "pow2 (bitlen p - 1) \<le> of_int p" and "of_int p < pow2 (bitlen p)"
proof -
  have b: "1 \<le> bitlen p" using assms by (simp add: bitlen_alt_def)
  from bitlen_bounds [OF assms]
  have "2 ^ nat (bitlen p - 1) \<le> p" "p < 2 ^ nat (bitlen p)" by auto
  then have "(of_int (2 ^ nat (bitlen p - 1)) :: rat) \<le> of_int p"
    "(of_int p :: rat) < of_int (2 ^ nat (bitlen p))"
    by (simp_all only: of_int_le_iff of_int_less_iff)
  then show "pow2 (bitlen p - 1) \<le> of_int p" and "of_int p < pow2 (bitlen p)"
    using b by (simp_all add: pow2_nat)
qed

text \<open>\<open>binexp\<close> is the binary exponent, and the only one.\<close>

lemma binexp_bounds:
  assumes "0 < x"
  shows "pow2 (binexp x) \<le> x \<and> x < pow2 (binexp x + 1)"
proof -
  obtain p q where pq: "quotient_of x = (p, q)" by force
  have q: "0 < q" using quotient_of_denom_pos [OF pq] .
  have x: "x = of_int p / of_int q" using quotient_of_div [OF pq] .
  have p: "0 < p" using assms q by (simp add: x zero_less_divide_iff)
  define k where "k = bitlen p - bitlen q"
  have qr: "(0::rat) < of_int q" using q by simp
  have lo: "pow2 (k - 1) \<le> x"
  proof -
    have "pow2 (k - 1) * of_int q \<le> pow2 (k - 1) * pow2 (bitlen q)"
      using of_int_bitlen(2) [OF q] pow2_pos [of "k - 1"] by (simp add: less_imp_le)
    also have "\<dots> = pow2 (bitlen p - 1)"
      by (simp add: k_def flip: pow2_add)
    also have "\<dots> \<le> of_int p" using of_int_bitlen(1) [OF p] .
    finally show ?thesis using qr by (simp add: x pos_le_divide_eq)
  qed
  have hi: "x < pow2 (k + 1)"
  proof -
    have "of_int p < pow2 (bitlen p)" using of_int_bitlen(2) [OF p] .
    also have "\<dots> = pow2 (k + 1) * pow2 (bitlen q - 1)"
      by (simp add: k_def flip: pow2_add)
    also have "\<dots> \<le> pow2 (k + 1) * of_int q"
      using of_int_bitlen(1) [OF q] pow2_pos [of "k + 1"] by simp
    finally show ?thesis using qr by (simp add: x pos_divide_less_eq)
  qed
  have b: "binexp x = (if pow2 k \<le> x then k else k - 1)"
    by (simp add: binexp_def pq k_def Let_def)
  show ?thesis using lo hi by (auto simp: b)
qed

lemma binexp_eq:
  assumes "0 < x" "pow2 e \<le> x" "x < pow2 (e + 1)"
  shows "binexp x = e"
proof -
  from binexp_bounds [OF assms(1)]
  have "pow2 (binexp x) < pow2 (e + 1)" "pow2 e < pow2 (binexp x + 1)"
    using assms by auto
  then show ?thesis by (simp add: pow2_less_iff)
qed

lemma round_half_even_of_int: "round_half_even (of_int n) = n"
  by (simp add: round_half_even_def)

text \<open>
  A number with at most 53 significant bits is its own rounding: a multiple of \<open>2 ^ m\<close>
  below \<open>2 ^ (m + 53)\<close> in magnitude.
\<close>

lemma fround_exact:
  assumes "x \<noteq> 0" "x * pow2 (52 - binexp \<bar>x\<bar>) = of_int n"
  shows "fround x = x"
proof -
  let ?s = "pow2 (52 - binexp \<bar>x\<bar>)"
  have s: "?s \<noteq> 0" using pow2_pos [of "52 - binexp \<bar>x\<bar>"] by simp
  have "round_half_even (x * ?s) = n"
    by (simp add: assms(2) round_half_even_of_int)
  then have "fround x = of_int n / ?s"
    using assms(1) by (simp add: fround_def Let_def)
  also have "\<dots> = x"
    using s by (simp flip: assms(2))
  finally show ?thesis .
qed

lemma fround_dyadic:
  assumes "\<bar>x\<bar> < pow2 (m + 53)" "x * pow2 (- m) = of_int n"
  shows "fround x = x"
proof (cases "x = 0")
  case True
  then show ?thesis by (simp add: fround_def)
next
  case False
  define e where "e = binexp \<bar>x\<bar>"
  have "pow2 e \<le> \<bar>x\<bar>" using binexp_bounds [of "\<bar>x\<bar>"] False by (simp add: e_def)
  with assms(1) have "pow2 e < pow2 (m + 53)" by simp
  then have k: "0 \<le> 52 - e + m" by (simp add: pow2_less_iff)
  have "pow2 (52 - e) = pow2 (- m) * pow2 (52 - e + m)"
    by (simp flip: pow2_add)
  also have "pow2 (52 - e + m) = of_int (2 ^ nat (52 - e + m))"
    using k by (simp add: pow2_nat)
  finally have "x * pow2 (52 - e) = of_int (n * 2 ^ nat (52 - e + m))"
    using assms(2) by (simp add: mult.assoc [symmetric])
  then show ?thesis
    using False unfolding e_def by (rule fround_exact [rotated])
qed

lemma float_max_pow2: "float_max = pow2 1024"
  by (simp add: float_max_def pow2_def)

lemma pow2_le_float_max: "m \<le> 1024 \<Longrightarrow> pow2 m \<le> float_max"
  unfolding float_max_pow2 pow2_powi by (intro power_int_increasing) auto

lemma float_of_int_exact:
  assumes "\<bar>w\<bar> < 2 ^ 53"
  shows "float_of_int w = Inr (of_int w)"
proof -
  have "\<bar>of_int w :: rat\<bar> < of_int (2 ^ 53)"
    using assms by (simp only: of_int_abs [symmetric] of_int_less_iff)
  then have a: "\<bar>of_int w :: rat\<bar> < pow2 (0 + 53)" by (simp add: pow2_def)
  have f: "fround (of_int w) = of_int w"
    using a by (rule fround_dyadic [where n = w]) (simp add: pow2_def)
  have "pow2 (0 + 53) \<le> float_max" by (rule pow2_le_float_max) simp
  with a have "\<not> float_max \<le> \<bar>of_int w :: rat\<bar>" by simp
  then show ?thesis by (simp add: float_of_int_def f Let_def)
qed

lemma int_times_float_dyadic:
  assumes w: "\<bar>w\<bar> < 2 ^ 53"
    and b: "\<bar>of_int w * x\<bar> < pow2 (m + 53)" and m: "m \<le> 0"
    and n: "of_int w * x * pow2 (- m) = of_int n"
  shows "int_times_float w x = Inr (trunc (of_int w * x))"
proof -
  have f: "fround (of_int w * x) = of_int w * x"
    using b n by (rule fround_dyadic)
  have "pow2 (m + 53) \<le> float_max" using m by (intro pow2_le_float_max) simp
  with b have "\<not> float_max \<le> \<bar>of_int w * x\<bar>" by simp
  then show ?thesis
    by (simp add: int_times_float_def float_of_int_exact [OF w] float_mul_def f int_of_float_def)
qed

lemma int_times_float_half:
  assumes "\<bar>w\<bar> < 2 ^ 53"
  shows "int_times_float w (1 / 2) = Inr (trunc (of_int w / 2))"
proof -
  have "\<bar>of_int w :: rat\<bar> < of_int (2 ^ 53)"
    using assms by (simp only: of_int_abs [symmetric] of_int_less_iff)
  then have "\<bar>of_int w * (1 / 2) :: rat\<bar> < pow2 (- 1 + 53)"
    by (simp add: pow2_def abs_mult)
  then show ?thesis
    using int_times_float_dyadic [OF assms, of "1 / 2" "- 1" w] by (simp add: pow2_def)
qed

lemma int_times_float_0:
  assumes "\<bar>w\<bar> < 2 ^ 53"
  shows "int_times_float w 0 = Inr 0"
  using int_times_float_dyadic [OF assms, of 0 0 0] by (simp add: pow2_def trunc_def)

lemma trunc_half: "trunc (of_int w / 2) = (if 0 \<le> w then w div 2 else - ((- w) div 2))"
proof (cases "0 \<le> w")
  case True
  then have "\<lfloor>(of_int w :: rat) / 2\<rfloor> = w div 2"
    using floor_divide_of_int_eq [of w 2, where ?'a = rat] by simp
  with True show ?thesis by (simp add: trunc_def)
next
  case False
  have "\<lceil>(of_int w :: rat) / 2\<rceil> = - \<lfloor>(of_int (- w) :: rat) / 2\<rfloor>"
    by (simp add: ceiling_def)
  also have "\<lfloor>(of_int (- w) :: rat) / 2\<rfloor> = (- w) div 2"
    using floor_divide_of_int_eq [of "- w" 2, where ?'a = rat] by simp
  finally show ?thesis using False by (simp add: trunc_def)
qed

lemma trunc_floor:
  "trunc x = (if 0 \<le> x \<or> of_int \<lfloor>x\<rfloor> = x then \<lfloor>x\<rfloor> else \<lfloor>x\<rfloor> + 1)"
  by (auto simp: trunc_def ceiling_altdef)

lemma float_sub_1_1: "float_sub 1 1 = 0"
  by (simp add: float_sub_def fround_def)

section \<open>Bounds\<close>

lemma digit_runs_digits:
  "\<forall>c \<in> set d. is_digit c \<Longrightarrow> digit_runs cur (d @ r) = digit_runs (cur @ d) r"
  by (induction d arbitrary: cur) auto

lemma digit_runs_skip:
  "\<forall>c \<in> set p. \<not> is_digit c \<Longrightarrow> digit_runs [] (p @ r) = digit_runs [] r"
  by (induction p) auto

lemma digit_runs_close:
  "cur \<noteq> [] \<Longrightarrow> sep \<noteq> [] \<Longrightarrow> \<forall>c \<in> set sep. \<not> is_digit c \<Longrightarrow>
   digit_runs cur (sep @ r) = cur # digit_runs [] r"
  by (cases sep) (auto simp: digit_runs_skip)

lemma digit_runs_run:
  assumes "d \<noteq> []" "\<forall>c \<in> set d. is_digit c" "sep \<noteq> []" "\<forall>c \<in> set sep. \<not> is_digit c"
  shows "digit_runs [] (d @ sep @ r) = d # digit_runs [] r"
  using assms by (simp add: digit_runs_digits digit_runs_close)

lemma digit_runs_last:
  assumes "d \<noteq> []" "\<forall>c \<in> set d. is_digit c" "\<forall>c \<in> set q. \<not> is_digit c"
  shows "digit_runs [] (d @ q) = [d]"
proof (cases q)
  case Nil
  with assms show ?thesis using digit_runs_digits [of d "[]" "[]"] by simp
next
  case (Cons a list)
  with assms show ?thesis
    using digit_runs_close [of d q "[]"] digit_runs_skip [of q "[]"]
    by (simp add: digit_runs_digits)
qed

lemma findall_four:
  assumes d: "d1 \<noteq> []" "d2 \<noteq> []" "d3 \<noteq> []" "d4 \<noteq> []"
      "\<forall>c \<in> set (d1 @ d2 @ d3 @ d4). is_digit c"
    and s: "s1 \<noteq> []" "s2 \<noteq> []" "s3 \<noteq> []" "\<forall>c \<in> set (p @ s1 @ s2 @ s3 @ q). \<not> is_digit c"
  shows "findall_digits (p @ d1 @ s1 @ d2 @ s2 @ d3 @ s3 @ d4 @ q) = [d1, d2, d3, d4]"
  using assms
  by (simp add: findall_digits_def digit_runs_skip digit_runs_run digit_runs_last)

text \<open>The conversion of the runs succeeds when none is over the limit, and only then.\<close>

lemma map_int_cases:
  "map_int rs =
     (if \<forall>r \<in> set rs. length r \<le> int_max_str_digits then Inr (map digits_value rs)
      else Inl ValueError)"
  by (induction rs) (simp_all add: int_of_digits_def not_less)

lemma bounds_Some:
  assumes "map_of (attrib (elem el)) ''bounds'' = Some b"
  shows "bounds el =
     (if length (findall_digits b) = 4
         \<and> (\<forall>r \<in> set (findall_digits b). length r \<le> int_max_str_digits)
      then Inr (digits_value (findall_digits b ! 0), digits_value (findall_digits b ! 1),
                digits_value (findall_digits b ! 2), digits_value (findall_digits b ! 3))
      else Inl ValueError)"
proof (cases "\<forall>r \<in> set (findall_digits b). length r \<le> int_max_str_digits")
  case True
  then have "map_int (findall_digits b) = Inr (map digits_value (findall_digits b))"
    by (simp add: map_int_cases)
  then show ?thesis
    using assms True by (auto simp: bounds_def split: list.splits)
next
  case False
  then have "map_int (findall_digits b) = Inl ValueError"
    by (simp add: map_int_cases)
  then show ?thesis
    using assms False by (simp add: bounds_def)
qed

lemma bounds_None:
  assumes "map_of (attrib (elem el)) ''bounds'' = None"
  shows "bounds el = Inl TypeError"
  using assms by (simp add: bounds_def)

text \<open>
  C4, as stated: a bounds string with at least four runs of digits parses, the first four
  taken. The code unpacks into exactly four names, so a fifth run is a ValueError too.
\<close>

theorem bounds_five_runs_counterexample:
  "findall_digits ''[0,0][10,20][5]'' = [''0'', ''0'', ''10'', ''20'', ''5'']
   \<and> bounds (node_with_bounds ''[0,0][10,20][5]'') = Inl ValueError"
  by code_simp

text \<open>
  C4, amended: with the attribute present, \<open>bounds\<close> raises ValueError whenever the number
  of digit runs is not four, fewer or more, and whenever a run has more than 4300 digits,
  which \<open>int\<close> refuses; it never returns a rectangle then. With exactly four runs of at
  most 4300 digits each it returns their values in order as (left, top, right, bottom),
  whatever stands between, before and after them. So a result is returned exactly when
  there are four runs, none over the limit.
\<close>

theorem bounds_exactly_four:
  assumes "map_of (attrib (elem el)) ''bounds'' = Some b"
  shows "(length (findall_digits b) \<noteq> 4 \<longrightarrow> bounds el = Inl ValueError)
    \<and> ((\<exists>r \<in> set (findall_digits b). 4300 < length r) \<longrightarrow> bounds el = Inl ValueError)
    \<and> (\<forall>d1 d2 d3 d4. findall_digits b = [d1, d2, d3, d4]
          \<and> length d1 \<le> 4300 \<and> length d2 \<le> 4300 \<and> length d3 \<le> 4300 \<and> length d4 \<le> 4300 \<longrightarrow>
          bounds el = Inr (digits_value d1, digits_value d2, digits_value d3, digits_value d4))
    \<and> (\<forall>p d1 s1 d2 s2 d3 s3 d4 q.
          b = p @ d1 @ s1 @ d2 @ s2 @ d3 @ s3 @ d4 @ q
          \<and> d1 \<noteq> [] \<and> d2 \<noteq> [] \<and> d3 \<noteq> [] \<and> d4 \<noteq> [] \<and> s1 \<noteq> [] \<and> s2 \<noteq> [] \<and> s3 \<noteq> []
          \<and> (\<forall>c \<in> set (d1 @ d2 @ d3 @ d4). is_digit c)
          \<and> (\<forall>c \<in> set (p @ s1 @ s2 @ s3 @ q). \<not> is_digit c) \<longrightarrow>
          bounds el =
            (if length d1 \<le> 4300 \<and> length d2 \<le> 4300 \<and> length d3 \<le> 4300 \<and> length d4 \<le> 4300
             then Inr (digits_value d1, digits_value d2, digits_value d3, digits_value d4)
             else Inl ValueError))
    \<and> ((\<exists>v. bounds el = Inr v) \<longleftrightarrow>
          length (findall_digits b) = 4 \<and> (\<forall>r \<in> set (findall_digits b). length r \<le> 4300))"
proof (intro conjI allI impI)
  assume "length (findall_digits b) \<noteq> 4"
  then show "bounds el = Inl ValueError"
    by (simp add: bounds_Some [OF assms])
next
  assume "\<exists>r \<in> set (findall_digits b). 4300 < length r"
  then have "\<not> (\<forall>r \<in> set (findall_digits b). length r \<le> int_max_str_digits)"
    by (auto simp: int_max_str_digits_def not_le)
  then show "bounds el = Inl ValueError"
    by (simp add: bounds_Some [OF assms])
next
  fix d1 d2 d3 d4
  assume "findall_digits b = [d1, d2, d3, d4]
          \<and> length d1 \<le> 4300 \<and> length d2 \<le> 4300 \<and> length d3 \<le> 4300 \<and> length d4 \<le> 4300"
  then show "bounds el = Inr (digits_value d1, digits_value d2, digits_value d3, digits_value d4)"
    by (simp add: bounds_Some [OF assms] int_max_str_digits_def)
next
  fix p d1 s1 d2 s2 d3 s3 d4 q
  assume h: "b = p @ d1 @ s1 @ d2 @ s2 @ d3 @ s3 @ d4 @ q
          \<and> d1 \<noteq> [] \<and> d2 \<noteq> [] \<and> d3 \<noteq> [] \<and> d4 \<noteq> [] \<and> s1 \<noteq> [] \<and> s2 \<noteq> [] \<and> s3 \<noteq> []
          \<and> (\<forall>c \<in> set (d1 @ d2 @ d3 @ d4). is_digit c)
          \<and> (\<forall>c \<in> set (p @ s1 @ s2 @ s3 @ q). \<not> is_digit c)"
  then have "findall_digits b = [d1, d2, d3, d4]"
    using findall_four [of d1 d2 d3 d4 s1 s2 s3 p q] by blast
  then show "bounds el =
            (if length d1 \<le> 4300 \<and> length d2 \<le> 4300 \<and> length d3 \<le> 4300 \<and> length d4 \<le> 4300
             then Inr (digits_value d1, digits_value d2, digits_value d3, digits_value d4)
             else Inl ValueError)"
    by (simp add: bounds_Some [OF assms] int_max_str_digits_def)
next
  show "(\<exists>v. bounds el = Inr v) \<longleftrightarrow>
          length (findall_digits b) = 4 \<and> (\<forall>r \<in> set (findall_digits b). length r \<le> 4300)"
    by (simp add: bounds_Some [OF assms] int_max_str_digits_def)
qed

theorem bounds_exactly_four_witness:
  "bounds (node_with_bounds ''[10,20][110,220]'') = Inr (10, 20, 110, 220)
   \<and> bounds (node_with_bounds ''10x20'') = Inl ValueError
   \<and> bounds (node_with_bounds (replicate 4300 CHR ''0'' @ ''7,20,110,220'')) = Inl ValueError
   \<and> bounds (node_with_bounds (replicate 4299 CHR ''0'' @ ''7,20,110,220''))
       = Inr (7, 20, 110, 220)"
proof -
  have a: "map_of (attrib (elem (node_with_bounds b))) ''bounds'' = Some b" for b
    by (simp add: node_with_bounds_def)
  have f: "findall_digits ''[10,20][110,220]'' = [''10'', ''20'', ''110'', ''220'']"
    by code_simp
  have g: "length (findall_digits ''10x20'') \<noteq> 4"
    by code_simp
  have i: "digits_value ''10'' = 10" "digits_value ''20'' = 20" "digits_value ''110'' = 110"
    "digits_value ''220'' = 220"
    by (simp_all add: digits_value_def)
  have z: "digits_value (replicate n CHR ''0'' @ ''7'') = 7" for n
  proof -
    have "foldl (\<lambda>a c. 10 * a + (int (of_char c) - 48)) 0 (replicate n CHR ''0'') = 0"
      by (induction n) simp_all
    then show ?thesis by (simp add: digits_value_def)
  qed
  have dg: "is_digit CHR ''0''" "is_digit CHR ''7''" "is_digit CHR ''1''" "is_digit CHR ''2''"
    "\<not> is_digit CHR '',''"
    by (simp_all add: is_digit_def)
  have long: "replicate n CHR ''0'' @ ''7,20,110,220''
      = [] @ (replicate n CHR ''0'' @ ''7'') @ '','' @ ''20'' @ '','' @ ''110'' @ '','' @ ''220'' @ []"
    for n
    by simp
  have h: "replicate n CHR ''0'' @ ''7,20,110,220''
        = [] @ (replicate n CHR ''0'' @ ''7'') @ '','' @ ''20'' @ '','' @ ''110'' @ '','' @ ''220'' @ []
      \<and> replicate n CHR ''0'' @ ''7'' \<noteq> [] \<and> ''20'' \<noteq> [] \<and> ''110'' \<noteq> [] \<and> ''220'' \<noteq> []
      \<and> '','' \<noteq> [] \<and> '','' \<noteq> [] \<and> '','' \<noteq> []
      \<and> (\<forall>c \<in> set ((replicate n CHR ''0'' @ ''7'') @ ''20'' @ ''110'' @ ''220''). is_digit c)
      \<and> (\<forall>c \<in> set ([] @ '','' @ '','' @ '','' @ []). \<not> is_digit c)" for n
    using dg by (auto simp only: long set_append set_replicate_conv_if list.set split: if_splits)
  note t1 = bounds_exactly_four [OF a [of "''[10,20][110,220]''"]]
  note t2 = bounds_exactly_four [OF a [of "''10x20''"]]
  note t3 = bounds_exactly_four [OF a [of "replicate 4300 CHR ''0'' @ ''7,20,110,220''"]]
  note t4 = bounds_exactly_four [OF a [of "replicate 4299 CHR ''0'' @ ''7,20,110,220''"]]
  have "bounds (node_with_bounds ''[10,20][110,220]'') = Inr (10, 20, 110, 220)"
    using t1 f i by simp
  moreover have "bounds (node_with_bounds ''10x20'') = Inl ValueError"
    using t2 g by blast
  moreover have "bounds (node_with_bounds (replicate 4300 CHR ''0'' @ ''7,20,110,220''))
      = (if length (replicate 4300 CHR ''0'' @ ''7'') \<le> 4300 \<and> length ''20'' \<le> 4300
            \<and> length ''110'' \<le> 4300 \<and> length ''220'' \<le> 4300
         then Inr (digits_value (replicate 4300 CHR ''0'' @ ''7''), digits_value ''20'',
                 digits_value ''110'', digits_value ''220'')
         else Inl ValueError)"
    using t3 h [of 4300] by blast
  then have "bounds (node_with_bounds (replicate 4300 CHR ''0'' @ ''7,20,110,220'')) = Inl ValueError"
    by simp
  moreover have "bounds (node_with_bounds (replicate 4299 CHR ''0'' @ ''7,20,110,220''))
      = (if length (replicate 4299 CHR ''0'' @ ''7'') \<le> 4300 \<and> length ''20'' \<le> 4300
            \<and> length ''110'' \<le> 4300 \<and> length ''220'' \<le> 4300
         then Inr (digits_value (replicate 4299 CHR ''0'' @ ''7''), digits_value ''20'',
                 digits_value ''110'', digits_value ''220'')
         else Inl ValueError)"
    using t4 h [of 4299] by blast
  then have "bounds (node_with_bounds (replicate 4299 CHR ''0'' @ ''7,20,110,220''))
      = Inr (7, 20, 110, 220)"
    by (simp add: z i)
  ultimately show ?thesis by blast
qed

section \<open>Rect, offset and center\<close>

text \<open>
  C5, as stated: the offset adds the floor of the product. \<open>int\<close> truncates toward zero,
  so with a negative product the code is one above the floor; here \<open>3 * -0.5 = -1.5\<close>.
\<close>

theorem offset_floor_counterexample:
  "offset (node_with_bounds ''[0,0][3,3]'') (- 1 / 2) (1 / 2) = Inr (- 1, 1)
   \<and> offset_spec (node_with_bounds ''[0,0][3,3]'') (- 1 / 2) (1 / 2) = Inr (- 2, 1)"
proof -
  have r: "rect (node_with_bounds ''[0,0][3,3]'') = Inr (0, 0, 3, 3)"
    by code_simp
  have f3: "float_of_int 3 = Inr 3"
    using float_of_int_exact [of 3] by simp
  have n: "fround (- (3 / 2)) = - (3 / 2)"
    by (rule fround_dyadic [where m = "- 1" and n = "- 3"]) (simp_all add: pow2_def)
  have p: "fround (3 / 2) = 3 / 2"
    by (rule fround_dyadic [where m = "- 1" and n = "3"]) (simp_all add: pow2_def)
  have fm: "\<not> float_max \<le> 3 / 2"
    using pow2_le_float_max [of 1] by (simp add: pow2_def)
  have a: "int_times_float 3 (- 1 / 2) = Inr (- 1)" "int_times_float 3 (1 / 2) = Inr 1"
    using fm
    by (simp_all add: int_times_float_def f3 float_mul_def n p int_of_float_def trunc_def
        floor_eq_iff ceiling_eq_iff)
  have b: "floor_times_float 3 (- 1 / 2) = Inr (- 2)" "floor_times_float 3 (1 / 2) = Inr 1"
    using fm
    by (simp_all add: floor_times_float_def f3 float_mul_def n p floor_eq_iff)
  show ?thesis
    using a b by (simp add: offset_def offset_spec_def r)
qed

text \<open>
  C5, amended: with bounds (l, t, r, b), \<open>rect\<close> is (l, t, r - l, b - t); \<open>center\<close> is
  \<open>offset\<close> at (0.5, 0.5); \<open>offset\<close> returns (l + int(width * px), t + int(height * py)),
  the products taken in floating point and \<open>int\<close> truncating toward zero, which is the
  floor when the product is not negative or is whole and one above it otherwise; for
  widths and heights below \<open>2 ^ 53\<close> the center is (l + int(width / 2), t + int(height / 2))
  exactly. At the bounds \<open>[10,20][110,220]\<close> the rect is (10, 20, 100, 200) and the center
  (60, 120).
\<close>

theorem rect_offset_center:
  assumes "bounds el = Inr (l, t, r, b)"
  shows "rect el = Inr (l, t, r - l, b - t)
    \<and> center el = offset el (1 / 2) (1 / 2)
    \<and> (offset el px py = Inr (x, y) \<longleftrightarrow>
         (\<exists>fw fh. float_of_int (r - l) = Inr fw \<and> float_of_int (b - t) = Inr fh
            \<and> \<bar>float_mul fw px\<bar> < float_max \<and> \<bar>float_mul fh py\<bar> < float_max
            \<and> x = l + trunc (float_mul fw px) \<and> y = t + trunc (float_mul fh py)))
    \<and> (\<forall>v. trunc v = (if 0 \<le> v \<or> of_int \<lfloor>v\<rfloor> = v then \<lfloor>v\<rfloor> else \<lfloor>v\<rfloor> + 1))
    \<and> (\<bar>r - l\<bar> < 2 ^ 53 \<and> \<bar>b - t\<bar> < 2 ^ 53 \<longrightarrow>
         center el = Inr (l + trunc (of_int (r - l) / 2), t + trunc (of_int (b - t) / 2)))"
proof (intro conjI allI impI)
  show r: "rect el = Inr (l, t, r - l, b - t)"
    using assms by (simp add: rect_def)
  show "center el = offset el (1 / 2) (1 / 2)"
    by (simp add: center_def)
  show "offset el px py = Inr (x, y) \<longleftrightarrow>
         (\<exists>fw fh. float_of_int (r - l) = Inr fw \<and> float_of_int (b - t) = Inr fh
            \<and> \<bar>float_mul fw px\<bar> < float_max \<and> \<bar>float_mul fh py\<bar> < float_max
            \<and> x = l + trunc (float_mul fw px) \<and> y = t + trunc (float_mul fh py))"
    by (auto simp: offset_def r int_times_float_def int_of_float_def split: sum.splits)
  show "trunc v = (if 0 \<le> v \<or> of_int \<lfloor>v\<rfloor> = v then \<lfloor>v\<rfloor> else \<lfloor>v\<rfloor> + 1)" for v
    by (rule trunc_floor)
  assume "\<bar>r - l\<bar> < 2 ^ 53 \<and> \<bar>b - t\<bar> < 2 ^ 53"
  then show "center el = Inr (l + trunc (of_int (r - l) / 2), t + trunc (of_int (b - t) / 2))"
    by (simp add: center_def offset_def r int_times_float_half)
qed

theorem rect_offset_center_witness:
  "rect (node_with_bounds ''[10,20][110,220]'') = Inr (10, 20, 100, 200)
   \<and> center (node_with_bounds ''[10,20][110,220]'') = Inr (60, 120)"
proof -
  have b: "bounds (node_with_bounds ''[10,20][110,220]'') = Inr (10, 20, 110, 220)"
    by code_simp
  have t: "trunc 50 = 50" "trunc 100 = 100"
    by (simp_all add: trunc_def)
  note w = rect_offset_center [OF b, of 0 0 0 0]
  from w have "rect (node_with_bounds ''[10,20][110,220]'') = Inr (10, 20, 110 - 10, 220 - 20)"
    by (rule conjunct1)
  moreover from w have "\<bar>110 - 10 :: int\<bar> < 2 ^ 53 \<and> \<bar>220 - 20 :: int\<bar> < 2 ^ 53 \<longrightarrow>
      center (node_with_bounds ''[10,20][110,220]'')
        = Inr (10 + trunc (of_int (110 - 10) / 2), 20 + trunc (of_int (220 - 20) / 2))"
    by blast
  ultimately show ?thesis
    using t by simp
qed

section \<open>Rounding errors\<close>

text \<open>
  Rounding to 53 bits changes a number by at most the fraction \<open>2 ^ -53\<close> of its
  magnitude.
\<close>

lemma round_half_even_err: "\<bar>of_int (round_half_even r) - r\<bar> \<le> 1 / 2"
proof -
  have a: "of_int \<lfloor>r\<rfloor> \<le> r" "r < of_int \<lfloor>r\<rfloor> + 1" by linarith+
  show ?thesis
    using a by (auto simp: round_half_even_def Let_def abs_le_iff)
qed

lemma fround_error: "\<bar>fround x - x\<bar> \<le> \<bar>x\<bar> / 2 ^ 53"
proof (cases "x = 0")
  case True
  then show ?thesis by (simp add: fround_def)
next
  case False
  define e where "e = binexp \<bar>x\<bar>"
  define s where "s = pow2 (52 - e)"
  have s: "0 < s" unfolding s_def by (rule pow2_pos)
  have lo: "pow2 e \<le> \<bar>x\<bar>" using binexp_bounds [of "\<bar>x\<bar>"] False by (simp add: e_def)
  have f: "fround x = of_int (round_half_even (x * s)) / s"
    using False by (simp add: fround_def Let_def s_def e_def)
  have "fround x - x = (of_int (round_half_even (x * s)) - x * s) / s"
    using s by (simp add: f field_simps)
  then have "\<bar>fround x - x\<bar> = \<bar>of_int (round_half_even (x * s)) - x * s\<bar> / s"
    using s by (simp add: abs_divide)
  also have "\<dots> \<le> (1 / 2) / s"
    using round_half_even_err [of "x * s"] s by (intro divide_right_mono) auto
  also have "(1 / 2) / s = pow2 e / 2 ^ 53"
  proof -
    have "pow2 e * s = pow2 52" unfolding s_def by (simp flip: pow2_add)
    then have "pow2 e * s = 2 ^ 52" by (simp add: pow2_def)
    then show ?thesis using s by (simp add: field_simps)
  qed
  also have "\<dots> \<le> \<bar>x\<bar> / 2 ^ 53"
    using lo by (simp add: divide_right_mono)
  finally show ?thesis .
qed

text \<open>\<open>int(p) // 2\<close> is less than one away from \<open>p / 2\<close>.\<close>

lemma trunc_near: "\<bar>of_int (trunc p) - p\<bar> < 1"
  unfolding trunc_def by (auto simp: abs_less_iff) linarith+

lemma trunc_div2: "\<bar>of_int (trunc p div 2) - p / 2\<bar> < (1::rat)"
proof -
  define n where "n = trunc p"
  have a: "\<bar>of_int n - p\<bar> < 1" unfolding n_def by (rule trunc_near)
  have "2 * (n div 2) \<le> n" "n \<le> 2 * (n div 2) + 1" by presburger+
  then have "(of_int (2 * (n div 2)) :: rat) \<le> of_int n" "(of_int n :: rat) \<le> of_int (2 * (n div 2) + 1)"
    by (simp_all only: of_int_le_iff)
  then have b: "2 * (of_int (n div 2) :: rat) \<le> of_int n" "(of_int n :: rat) \<le> 2 * of_int (n div 2) + 1"
    by simp_all
  show ?thesis
    unfolding n_def [symmetric] using a b by (simp add: abs_less_iff) 
qed

text \<open>
  \<open>int(w * (1 - scale))\<close> as the source computes it: the integer is converted, the
  difference is rounded, the product is rounded. For a width below \<open>2 ^ 1023\<close> in
  magnitude nothing overflows, and the product is off by at most the fraction \<open>2 ^ -51\<close>.
\<close>

lemma float_product_error:
  fixes W c u fw d q p :: rat
  assumes u: "0 \<le> u" "u \<le> 1 / 4" and c: "0 \<le> c"
    and e1: "\<bar>fw - W\<bar> \<le> \<bar>W\<bar> * u" and e2: "\<bar>d - c\<bar> \<le> c * u"
    and e3: "\<bar>p - fw * d\<bar> \<le> \<bar>fw * d\<bar> * u"
  shows "\<bar>fw\<bar> \<le> \<bar>W\<bar> * (1 + u)" and "\<bar>p - W * c\<bar> \<le> \<bar>W\<bar> * c * (4 * u)"
proof -
  define a where "a = \<bar>W\<bar>"
  have a: "0 \<le> a" by (simp add: a_def)
  have "\<bar>fw\<bar> \<le> \<bar>W\<bar> + \<bar>fw - W\<bar>" by simp
  with e1 show fwb: "\<bar>fw\<bar> \<le> \<bar>W\<bar> * (1 + u)" by (simp add: algebra_simps)
  then have fwa: "\<bar>fw\<bar> \<le> a * (1 + u)" by (simp add: a_def)
  have "\<bar>d\<bar> \<le> \<bar>c\<bar> + \<bar>d - c\<bar>" by simp
  with e2 c have db: "\<bar>d\<bar> \<le> c * (1 + u)" by (simp add: algebra_simps)
  have qb: "\<bar>fw * d\<bar> \<le> (a * (1 + u)) * (c * (1 + u))"
    unfolding abs_mult using fwa db by (intro mult_mono) (use a u c in auto)
  have "fw * d - W * c = (fw - W) * d + W * (d - c)" by (simp add: algebra_simps)
  then have "\<bar>fw * d - W * c\<bar> \<le> \<bar>fw - W\<bar> * \<bar>d\<bar> + \<bar>W\<bar> * \<bar>d - c\<bar>"
    by (simp add: abs_mult [symmetric] del: abs_mult) 
  also have "\<dots> \<le> (a * u) * (c * (1 + u)) + a * (c * u)"
    using e1 e2 db a u c unfolding a_def [symmetric]
    by (intro add_mono mult_mono) auto
  finally have qe: "\<bar>fw * d - W * c\<bar> \<le> (a * u) * (c * (1 + u)) + a * (c * u)" .
  have "\<bar>p - W * c\<bar> \<le> \<bar>p - fw * d\<bar> + \<bar>fw * d - W * c\<bar>" by simp
  also have "\<dots> \<le> ((a * (1 + u)) * (c * (1 + u))) * u + ((a * u) * (c * (1 + u)) + a * (c * u))"
    using e3 qb qe u by (intro add_mono) (auto intro: order_trans mult_right_mono)
  also have "\<dots> = (a * c) * (u * (3 + 3 * u + u * u))"
    by (simp add: algebra_simps)
  also have "\<dots> \<le> (a * c) * (u * 4)"
  proof -
    have "u * u \<le> 1 / 4 * (1 / 4)" using u by (intro mult_mono) auto
    then have "3 + 3 * u + u * u \<le> 4" using u by simp
    then show ?thesis using a c u by (intro mult_left_mono) auto
  qed
  finally show "\<bar>p - W * c\<bar> \<le> \<bar>W\<bar> * c * (4 * u)"
    by (simp add: a_def algebra_simps)
qed

lemma int_times_float_near:
  assumes w: "\<bar>w\<bar> \<le> 2 ^ 1023" and c: "0 \<le> c" "c \<le> 1"
  shows "\<exists>p. int_times_float w (fround c) = Inr (trunc p)
           \<and> \<bar>p - of_int w * c\<bar> \<le> \<bar>of_int w\<bar> * c / 2 ^ 51"
proof -
  define u :: rat where "u = 1 / 2 ^ 53"
  define M :: rat where "M = 2 ^ 1023"
  define W :: rat where "W = of_int w"
  define fw where "fw = fround W"
  define d where "d = fround c"
  define p where "p = fround (fw * d)"
  have u: "0 \<le> u" "u \<le> 1 / 4" "4 * u = 1 / 2 ^ 51" by (simp_all add: u_def)
  have M: "0 < M" "float_max = 2 * M" by (simp_all add: M_def float_max_def)
  have "\<bar>of_int w :: rat\<bar> \<le> of_int (2 ^ 1023)"
    using w by (simp only: of_int_abs [symmetric] of_int_le_iff)
  then have Wb: "\<bar>W\<bar> \<le> M" by (simp add: W_def M_def)
  have e1: "\<bar>fw - W\<bar> \<le> \<bar>W\<bar> * u" using fround_error [of W] by (simp add: fw_def u_def)
  have e2: "\<bar>d - c\<bar> \<le> c * u" using fround_error [of c] c by (simp add: d_def u_def)
  have e3: "\<bar>p - fw * d\<bar> \<le> \<bar>fw * d\<bar> * u" using fround_error [of "fw * d"] by (simp add: p_def u_def)
  note pe = float_product_error [OF u(1,2) c(1) e1 e2 e3]
  have "\<bar>fw\<bar> \<le> M * (1 + u)"
    using pe(1) Wb u by (auto intro: order_trans mult_right_mono)
  also have "\<dots> < M * 2" using M(1) u(2) by (intro mult_strict_left_mono) auto
  finally have f1: "\<not> float_max \<le> \<bar>fw\<bar>" by (simp add: M)
  have "\<bar>p\<bar> \<le> \<bar>W * c\<bar> + \<bar>p - W * c\<bar>" by simp
  also have "\<dots> \<le> \<bar>W\<bar> * c + \<bar>W\<bar> * c * (4 * u)"
    using pe(2) c by (simp add: abs_mult)
  also have "\<dots> = (\<bar>W\<bar> * c) * (1 + 4 * u)" by (simp add: algebra_simps)
  also have "\<dots> \<le> (M * 1) * (1 + 4 * u)"
    using Wb c u by (intro mult_right_mono mult_mono) auto
  also have "\<dots> < M * 2"
  proof -
    have "1 + 4 * u < 2" by (simp add: u(3))
    from this M(1) have "M * (1 + 4 * u) < M * 2" by (rule mult_strict_left_mono)
    then show ?thesis by simp
  qed
  finally have f2: "\<not> float_max \<le> \<bar>p\<bar>" by (simp add: M)
  have "int_times_float w (fround c) = Inr (trunc p)"
    using f1 f2
    by (simp add: int_times_float_def float_of_int_def Let_def int_of_float_def float_mul_def
        fw_def [symmetric] W_def [symmetric] d_def [symmetric] p_def [symmetric])
  moreover have "\<bar>p - of_int w * c\<bar> \<le> \<bar>of_int w\<bar> * c / 2 ^ 51"
    using pe(2) by (simp add: u(3) W_def)
  ultimately show ?thesis by blast
qed

lemma swipe_trim:
  assumes w: "\<bar>w\<bar> \<le> 2 ^ 1023" and s: "0 < scale" "scale \<le> 1"
  shows "\<exists>n. int_times_float w (float_sub 1 scale) = Inr n
           \<and> \<bar>of_int (n div 2) - of_int w * (1 - scale) / 2\<bar>
               < 1 + \<bar>of_int w\<bar> * (1 - scale) / 2 ^ 52"
proof -
  from s have c: "0 \<le> 1 - scale" "1 - scale \<le> 1" by simp_all
  from int_times_float_near [OF w c] obtain p where
    p: "int_times_float w (fround (1 - scale)) = Inr (trunc p)"
    and e: "\<bar>p - of_int w * (1 - scale)\<bar> \<le> \<bar>of_int w\<bar> * (1 - scale) / 2 ^ 51"
    by blast
  have "\<bar>of_int (trunc p div 2) - of_int w * (1 - scale) / 2\<bar>
      \<le> \<bar>of_int (trunc p div 2) - p / 2\<bar> + \<bar>p / 2 - of_int w * (1 - scale) / 2\<bar>"
    by simp
  also have "\<bar>p / 2 - of_int w * (1 - scale) / 2\<bar> = \<bar>p - of_int w * (1 - scale)\<bar> / 2"
  proof -
    have "p / 2 - of_int w * (1 - scale) / 2 = (p - of_int w * (1 - scale)) / 2"
      by (simp only: diff_divide_distrib)
    then show ?thesis by (simp only: abs_divide)
  qed
  also have "\<bar>of_int (trunc p div 2) - p / 2\<bar> + \<bar>p - of_int w * (1 - scale)\<bar> / 2
      < 1 + (\<bar>of_int w\<bar> * (1 - scale) / 2 ^ 51) / 2"
    using trunc_div2 [of p] e by (intro add_less_le_mono divide_right_mono) auto
  finally show ?thesis
    using p by (auto simp: float_sub_def)
qed

lemma int_times_float_exact:
  assumes "\<bar>w\<bar> < 2 ^ 53" "fround x = x" "fround (of_int w * x) = of_int w * x"
    "int_times_float w (float_sub 1 scale) = Inr n" "x = 1 - scale"
  shows "n = trunc (of_int w * x)"
  using assms
  by (auto simp: int_times_float_def float_of_int_exact float_sub_def float_mul_def
      int_of_float_def split: if_splits)

text \<open>The value of a rounding, from the exponent and the nearest integer mantissa.\<close>

lemma round_half_even_near:
  assumes "of_int n - 1 / 2 < y" "y < of_int n + 1 / 2"
  shows "round_half_even y = n"
proof (cases "of_int n \<le> y")
  case True
  with assms have "\<lfloor>y\<rfloor> = n" by (simp add: floor_eq_iff)
  with assms show ?thesis by (simp add: round_half_even_def Let_def)
next
  case False
  with assms have "\<lfloor>y\<rfloor> = n - 1" by (simp add: floor_eq_iff)
  with assms False show ?thesis by (simp add: round_half_even_def Let_def)
qed

lemma fround_eval:
  assumes "0 < x" "pow2 e \<le> x" "x < pow2 (e + 1)"
    and "of_int n - 1 / 2 < x * pow2 (52 - e)" "x * pow2 (52 - e) < of_int n + 1 / 2"
  shows "fround x = of_int n / pow2 (52 - e)"
proof -
  have "binexp \<bar>x\<bar> = e" using assms(1-3) by (simp add: binexp_eq)
  moreover have "round_half_even (x * pow2 (52 - e)) = n"
    using assms(4,5) by (rule round_half_even_near)
  ultimately show ?thesis using assms(1) by (simp add: fround_def Let_def)
qed

section \<open>Swipe\<close>

lemma swipe_unknown_direction:
  assumes "direction \<notin> {''left'', ''right'', ''up'', ''down''}"
  shows "\<exists>e. swipe el direction scale s = Inl e"
  using assms by (auto simp: swipe_def Let_def split: sum.splits)

text \<open>
  The rounding goes down. The float nearest to 0.9 is a little above 9/10, so that
  \<open>100 * (1 - 0.9)\<close> is \<open>9.999999999999998\<close> in floating point: at width 100 and scale 0.9
  the trim is \<open>9 // 2 = 4\<close>.
\<close>

lemma fround_nine_tenths: "fround (9 / 10) = 8106479329266893 / 2 ^ 53"
  using fround_eval [of "9 / 10" "- 1" 8106479329266893] by (simp add: pow2_def)

lemma int_times_float_nine_tenths:
  "int_times_float 100 (float_sub 1 (fround (9 / 10))) = Inr 9"
proof -
  have d: "float_sub 1 (fround (9 / 10)) = 900719925474099 / 2 ^ 53"
    unfolding float_sub_def fround_nine_tenths
    using fround_dyadic [of "900719925474099 / 2 ^ 53" "- 53" 900719925474099]
    by (simp add: pow2_def)
  have p: "fround (100 * (900719925474099 / 2 ^ 53)) = 5629499534213119 / 2 ^ 49"
    using fround_eval [of "100 * (900719925474099 / 2 ^ 53)" 3 5629499534213119]
    by (simp add: pow2_def)
  have m: "\<not> float_max \<le> \<bar>5629499534213119 / 2 ^ 49 :: rat\<bar>"
    using pow2_le_float_max [of 4] by (simp add: pow2_def)
  have t: "trunc (5629499534213119 / 2 ^ 49) = 9"
    by (simp add: trunc_def floor_eq_iff)
  have f100: "float_of_int 100 = Inr 100"
    using float_of_int_exact [of 100] by simp
  have fm: "float_mul 100 (900719925474099 / 2 ^ 53) = 5629499534213119 / 2 ^ 49"
    unfolding float_mul_def by (rule p)
  have "int_times_float 100 (float_sub 1 (fround (9 / 10)))
      = int_of_float (5629499534213119 / 2 ^ 49)"
    by (simp only: int_times_float_def f100 sum.case d fm)
  also have "\<dots> = Inr 9"
    using m by (simp only: int_of_float_def t if_False)
  finally show ?thesis .
qed

lemma swipe_nine_tenths:
  "swipe (node_with_bounds ''[0,0][100,100]'') ''left'' (fround (9 / 10)) idle_session
     = Inr (idle_session\<lparr>actions := [Swipe 96 50 4 50]\<rparr>)"
proof -
  have b: "bounds (node_with_bounds ''[0,0][100,100]'') = Inr (0, 0, 100, 100)"
    by code_simp
  have s: "0 < fround (9 / 10)" "fround (9 / 10) \<le> 1"
    by (simp_all add: fround_nine_tenths)
  show ?thesis
    using s int_times_float_nine_tenths
    by (simp add: swipe_def b Let_def send_swipe_def idle_session_def)
qed

text \<open>
  C7: a direction other than the four is an error, whatever the element and the scale.
  With bounds (lx, ly, rx, ry), a scale in (0, 1] and a width and a height below
  \<open>2 ^ 1023\<close> in magnitude (beyond, the conversion to a float overflows), the swipe
  succeeds in the four directions. It trims a whole number \<open>h\<close> of pixels from the left
  and from the right and a whole number \<open>v\<close> from the top and from the bottom, where \<open>h\<close>
  is less than one pixel, and the relative rounding error \<open>2 ^ -52\<close> of the floating-point
  product, away from \<open>(1 - scale) / 2\<close> of the width, and \<open>v\<close> likewise of the height; when
  \<open>1 - scale\<close> and its product with the width are floats, \<open>h\<close> is
  \<open>int(width * (1 - scale)) // 2\<close> in exact arithmetic. The swipe goes between the
  middles of two opposite trimmed edges: left from the right edge to the left edge, right
  the other way, up from the bottom edge to the top edge, down the other way. The error
  of an unknown direction is then RuntimeError. At bounds (0, 0, 100, 100), scale 1.0 and
  direction left the swipe goes from (100, 50) to (0, 50).
\<close>

theorem swipe_geometry:
  "(direction \<notin> {''left'', ''right'', ''up'', ''down''} \<longrightarrow>
      (\<exists>e. swipe el direction scale s = Inl e))
   \<and> (bounds el = Inr (lx, ly, rx, ry) \<and> 0 < scale \<and> scale \<le> 1
        \<and> \<bar>rx - lx\<bar> \<le> 2 ^ 1023 \<and> \<bar>ry - ly\<bar> \<le> 2 ^ 1023 \<longrightarrow>
      (\<exists>h v.
          \<bar>of_int h - of_int (rx - lx) * (1 - scale) / 2\<bar>
            < 1 + \<bar>of_int (rx - lx)\<bar> * (1 - scale) / 2 ^ 52
        \<and> \<bar>of_int v - of_int (ry - ly) * (1 - scale) / 2\<bar>
            < 1 + \<bar>of_int (ry - ly)\<bar> * (1 - scale) / 2 ^ 52
        \<and> (\<bar>rx - lx\<bar> < 2 ^ 53 \<and> fround (1 - scale) = 1 - scale
              \<and> fround (of_int (rx - lx) * (1 - scale)) = of_int (rx - lx) * (1 - scale) \<longrightarrow>
            h = trunc (of_int (rx - lx) * (1 - scale)) div 2)
        \<and> (\<bar>ry - ly\<bar> < 2 ^ 53 \<and> fround (1 - scale) = 1 - scale
              \<and> fround (of_int (ry - ly) * (1 - scale)) = of_int (ry - ly) * (1 - scale) \<longrightarrow>
            v = trunc (of_int (ry - ly) * (1 - scale)) div 2)
        \<and> swipe el ''left'' scale s =
            Inr (send_swipe (rx - h) (ly + (ry - ly) div 2) (lx + h) (ly + (ry - ly) div 2) s)
        \<and> swipe el ''right'' scale s =
            Inr (send_swipe (lx + h) (ly + (ry - ly) div 2) (rx - h) (ly + (ry - ly) div 2) s)
        \<and> swipe el ''up'' scale s =
            Inr (send_swipe (lx + (rx - lx) div 2) (ry - v) (lx + (rx - lx) div 2) (ly + v) s)
        \<and> swipe el ''down'' scale s =
            Inr (send_swipe (lx + (rx - lx) div 2) (ly + v) (lx + (rx - lx) div 2) (ry - v) s)
        \<and> (direction \<notin> {''left'', ''right'', ''up'', ''down''} \<longrightarrow>
              swipe el direction scale s = Inl RuntimeError)))"
proof (intro conjI impI)
  assume "direction \<notin> {''left'', ''right'', ''up'', ''down''}"
  then show "\<exists>e. swipe el direction scale s = Inl e"
    by (rule swipe_unknown_direction)
next
  assume a: "bounds el = Inr (lx, ly, rx, ry) \<and> 0 < scale \<and> scale \<le> 1
        \<and> \<bar>rx - lx\<bar> \<le> 2 ^ 1023 \<and> \<bar>ry - ly\<bar> \<le> 2 ^ 1023"
  then have b: "bounds el = Inr (lx, ly, rx, ry)" and s: "0 < scale" "scale \<le> 1"
    and w: "\<bar>rx - lx\<bar> \<le> 2 ^ 1023" and h: "\<bar>ry - ly\<bar> \<le> 2 ^ 1023"
    by simp_all
  from swipe_trim [OF w s] obtain n where
    n: "int_times_float (rx - lx) (float_sub 1 scale) = Inr n"
    and ne: "\<bar>of_int (n div 2) - of_int (rx - lx) * (1 - scale) / 2\<bar>
               < 1 + \<bar>of_int (rx - lx)\<bar> * (1 - scale) / 2 ^ 52"
    by blast
  from swipe_trim [OF h s] obtain m where
    m: "int_times_float (ry - ly) (float_sub 1 scale) = Inr m"
    and me: "\<bar>of_int (m div 2) - of_int (ry - ly) * (1 - scale) / 2\<bar>
               < 1 + \<bar>of_int (ry - ly)\<bar> * (1 - scale) / 2 ^ 52"
    by blast
  have nx: "n div 2 = trunc (of_int (rx - lx) * (1 - scale)) div 2"
    if "\<bar>rx - lx\<bar> < 2 ^ 53 \<and> fround (1 - scale) = 1 - scale
        \<and> fround (of_int (rx - lx) * (1 - scale)) = of_int (rx - lx) * (1 - scale)"
    using int_times_float_exact [of "rx - lx" "1 - scale" scale n] that n by simp
  have mx: "m div 2 = trunc (of_int (ry - ly) * (1 - scale)) div 2"
    if "\<bar>ry - ly\<bar> < 2 ^ 53 \<and> fround (1 - scale) = 1 - scale
        \<and> fround (of_int (ry - ly) * (1 - scale)) = of_int (ry - ly) * (1 - scale)"
    using int_times_float_exact [of "ry - ly" "1 - scale" scale m] that m by simp
  have sw: "swipe el d scale s =
      (if d = ''left'' then
         Inr (send_swipe (rx - n div 2) (ly + (ry - ly) div 2) (lx + n div 2) (ly + (ry - ly) div 2) s)
       else if d = ''right'' then
         Inr (send_swipe (lx + n div 2) (ly + (ry - ly) div 2) (rx - n div 2) (ly + (ry - ly) div 2) s)
       else if d = ''up'' then
         Inr (send_swipe (lx + (rx - lx) div 2) (ry - m div 2) (lx + (rx - lx) div 2) (ly + m div 2) s)
       else if d = ''down'' then
         Inr (send_swipe (lx + (rx - lx) div 2) (ly + m div 2) (lx + (rx - lx) div 2) (ry - m div 2) s)
       else Inl RuntimeError)" for d
    using s by (simp add: swipe_def b n m Let_def)
  show "\<exists>h v.
          \<bar>of_int h - of_int (rx - lx) * (1 - scale) / 2\<bar>
            < 1 + \<bar>of_int (rx - lx)\<bar> * (1 - scale) / 2 ^ 52
        \<and> \<bar>of_int v - of_int (ry - ly) * (1 - scale) / 2\<bar>
            < 1 + \<bar>of_int (ry - ly)\<bar> * (1 - scale) / 2 ^ 52
        \<and> (\<bar>rx - lx\<bar> < 2 ^ 53 \<and> fround (1 - scale) = 1 - scale
              \<and> fround (of_int (rx - lx) * (1 - scale)) = of_int (rx - lx) * (1 - scale) \<longrightarrow>
            h = trunc (of_int (rx - lx) * (1 - scale)) div 2)
        \<and> (\<bar>ry - ly\<bar> < 2 ^ 53 \<and> fround (1 - scale) = 1 - scale
              \<and> fround (of_int (ry - ly) * (1 - scale)) = of_int (ry - ly) * (1 - scale) \<longrightarrow>
            v = trunc (of_int (ry - ly) * (1 - scale)) div 2)
        \<and> swipe el ''left'' scale s =
            Inr (send_swipe (rx - h) (ly + (ry - ly) div 2) (lx + h) (ly + (ry - ly) div 2) s)
        \<and> swipe el ''right'' scale s =
            Inr (send_swipe (lx + h) (ly + (ry - ly) div 2) (rx - h) (ly + (ry - ly) div 2) s)
        \<and> swipe el ''up'' scale s =
            Inr (send_swipe (lx + (rx - lx) div 2) (ry - v) (lx + (rx - lx) div 2) (ly + v) s)
        \<and> swipe el ''down'' scale s =
            Inr (send_swipe (lx + (rx - lx) div 2) (ly + v) (lx + (rx - lx) div 2) (ry - v) s)
        \<and> (direction \<notin> {''left'', ''right'', ''up'', ''down''} \<longrightarrow>
              swipe el direction scale s = Inl RuntimeError)"
  proof (rule exI [of _ "n div 2"], rule exI [of _ "m div 2"], intro conjI impI)
    show "\<bar>of_int (n div 2) - of_int (rx - lx) * (1 - scale) / 2\<bar>
            < 1 + \<bar>of_int (rx - lx)\<bar> * (1 - scale) / 2 ^ 52" by (rule ne)
    show "\<bar>of_int (m div 2) - of_int (ry - ly) * (1 - scale) / 2\<bar>
            < 1 + \<bar>of_int (ry - ly)\<bar> * (1 - scale) / 2 ^ 52" by (rule me)
    show "n div 2 = trunc (of_int (rx - lx) * (1 - scale)) div 2"
      if "\<bar>rx - lx\<bar> < 2 ^ 53 \<and> fround (1 - scale) = 1 - scale
        \<and> fround (of_int (rx - lx) * (1 - scale)) = of_int (rx - lx) * (1 - scale)"
      using that by (rule nx)
    show "m div 2 = trunc (of_int (ry - ly) * (1 - scale)) div 2"
      if "\<bar>ry - ly\<bar> < 2 ^ 53 \<and> fround (1 - scale) = 1 - scale
        \<and> fround (of_int (ry - ly) * (1 - scale)) = of_int (ry - ly) * (1 - scale)"
      using that by (rule mx)
    show "swipe el ''left'' scale s =
            Inr (send_swipe (rx - n div 2) (ly + (ry - ly) div 2) (lx + n div 2) (ly + (ry - ly) div 2) s)"
      by (simp add: sw)
    show "swipe el ''right'' scale s =
            Inr (send_swipe (lx + n div 2) (ly + (ry - ly) div 2) (rx - n div 2) (ly + (ry - ly) div 2) s)"
      by (simp add: sw)
    show "swipe el ''up'' scale s =
            Inr (send_swipe (lx + (rx - lx) div 2) (ry - m div 2) (lx + (rx - lx) div 2) (ly + m div 2) s)"
      by (simp add: sw)
    show "swipe el ''down'' scale s =
            Inr (send_swipe (lx + (rx - lx) div 2) (ly + m div 2) (lx + (rx - lx) div 2) (ry - m div 2) s)"
      by (simp add: sw)
    show "swipe el direction scale s = Inl RuntimeError"
      if "direction \<notin> {''left'', ''right'', ''up'', ''down''}"
      using that by (simp add: sw)
  qed
qed

theorem swipe_geometry_witness:
  "swipe (node_with_bounds ''[0,0][100,100]'') ''left'' 1 idle_session =
     Inr (idle_session\<lparr>actions := [Swipe 100 50 0 50]\<rparr>)
   \<and> swipe (node_with_bounds ''[0,0][100,100]'') ''left'' (1 / 2) idle_session =
     Inr (idle_session\<lparr>actions := [Swipe 75 50 25 50]\<rparr>)
   \<and> swipe (node_with_bounds ''[10,20][110,220]'') ''up'' (1 / 2) idle_session =
     Inr (idle_session\<lparr>actions := [Swipe 60 170 60 70]\<rparr>)
   \<and> swipe (node_with_bounds ''[0,0][100,100]'') ''north'' 1 idle_session = Inl RuntimeError"
proof -
  let ?a = "node_with_bounds ''[0,0][100,100]''"
  let ?b = "node_with_bounds ''[10,20][110,220]''"
  have ba: "bounds ?a = Inr (0, 0, 100, 100)"
    by code_simp
  have bb: "bounds ?b = Inr (10, 20, 110, 220)"
    by code_simp
  have d: "''north'' \<notin> {''left'', ''right'', ''up'', ''down''}"
    by simp
  have big: "\<bar>100 - 0 :: int\<bar> \<le> 2 ^ 1023" "\<bar>110 - 10 :: int\<bar> \<le> 2 ^ 1023"
    "\<bar>220 - 20 :: int\<bar> \<le> 2 ^ 1023"
    by simp_all
  have f0: "fround 0 = 0"
    by (simp add: fround_def)
  have fh: "fround (1 / 2) = 1 / 2"
    by (rule fround_dyadic [where m = "- 1" and n = 1]) (simp_all add: pow2_def)
  have f50: "fround 50 = 50"
    by (rule fround_dyadic [where m = 0 and n = 50]) (simp_all add: pow2_def)
  have f100: "fround 100 = 100"
    by (rule fround_dyadic [where m = 0 and n = 100]) (simp_all add: pow2_def)
  have t: "trunc 0 = 0" "trunc 50 = 50" "trunc 100 = 100"
    by (simp_all add: trunc_def)
  from swipe_geometry [of "''north''" ?a 1 idle_session 0 0 100 100] ba d big
  obtain h v where
    h: "\<bar>100 - 0 :: int\<bar> < 2 ^ 53 \<and> fround (1 - 1) = 1 - 1
          \<and> fround (of_int (100 - 0) * (1 - 1)) = of_int (100 - 0) * (1 - 1) \<longrightarrow>
        h = trunc (of_int (100 - 0) * (1 - 1)) div 2"
    and l: "swipe ?a ''left'' 1 idle_session =
            Inr (send_swipe (100 - h) (0 + (100 - 0) div 2) (0 + h) (0 + (100 - 0) div 2) idle_session)"
    and u: "swipe ?a ''north'' 1 idle_session = Inl RuntimeError"
    by auto
  from h have "h = 0" by (simp add: f0 t)
  with l have 1: "swipe ?a ''left'' 1 idle_session = Inr (idle_session\<lparr>actions := [Swipe 100 50 0 50]\<rparr>)"
    by (simp add: send_swipe_def idle_session_def)
  from swipe_geometry [of "''north''" ?a "1 / 2" idle_session 0 0 100 100] ba big
  obtain h2 v2 where
    h2: "\<bar>100 - 0 :: int\<bar> < 2 ^ 53 \<and> fround (1 - 1 / 2) = 1 - 1 / 2
          \<and> fround (of_int (100 - 0) * (1 - 1 / 2)) = of_int (100 - 0) * (1 - 1 / 2) \<longrightarrow>
        h2 = trunc (of_int (100 - 0) * (1 - 1 / 2)) div 2"
    and l2: "swipe ?a ''left'' (1 / 2) idle_session =
            Inr (send_swipe (100 - h2) (0 + (100 - 0) div 2) (0 + h2) (0 + (100 - 0) div 2) idle_session)"
    by auto
  from h2 have "h2 = 25" by (simp add: fh f50 t)
  with l2 have 2: "swipe ?a ''left'' (1 / 2) idle_session
      = Inr (idle_session\<lparr>actions := [Swipe 75 50 25 50]\<rparr>)"
    by (simp add: send_swipe_def idle_session_def)
  from swipe_geometry [of "''north''" ?b "1 / 2" idle_session 10 20 110 220] bb big
  obtain h3 v3 where
    v3: "\<bar>220 - 20 :: int\<bar> < 2 ^ 53 \<and> fround (1 - 1 / 2) = 1 - 1 / 2
          \<and> fround (of_int (220 - 20) * (1 - 1 / 2)) = of_int (220 - 20) * (1 - 1 / 2) \<longrightarrow>
        v3 = trunc (of_int (220 - 20) * (1 - 1 / 2)) div 2"
    and l3: "swipe ?b ''up'' (1 / 2) idle_session =
            Inr (send_swipe (10 + (110 - 10) div 2) (220 - v3) (10 + (110 - 10) div 2) (20 + v3) idle_session)"
    by auto
  from v3 have "v3 = 50" by (simp add: fh f100 t)
  with l3 have 3: "swipe ?b ''up'' (1 / 2) idle_session
      = Inr (idle_session\<lparr>actions := [Swipe 60 170 60 70]\<rparr>)"
    by (simp add: send_swipe_def idle_session_def)
  from 1 2 3 u show ?thesis by blast
qed

section \<open>Resolution is an intersection\<close>

lemma set_intersection_set: "set (set_intersection rk x y) = set x \<inter> set y"
  by (auto simp: set_intersection_def)

lemma foldl_intersection_set:
  "set (foldl (set_intersection rk) m ms) = set m \<inter> (\<Inter>y \<in> set ms. set y)"
  by (induction ms arbitrary: m) (auto simp: set_intersection_set)

lemma reduce_intersection_set:
  assumes "reduce_intersection rk ms = Inr ns"
  shows "ms \<noteq> [] \<and> set ns = (\<Inter>y \<in> set ms. set y)"
  using assms
  by (cases ms) (auto simp: reduce_intersection_def foldl_intersection_set)

lemma reduce_intersection_single: "reduce_intersection rk [m] = Inr m"
  by (simp add: reduce_intersection_def)

lemma reduce_intersection_Cons: "reduce_intersection rk (m # ms) = Inr (foldl (set_intersection rk) m ms)"
  by (simp add: reduce_intersection_def)

lemma eval_all_Cons_Inr:
  "eval_all R d (q # qs) = Inr ms \<longleftrightarrow>
     (\<exists>m ms'. ms = m # ms' \<and> xpath_eval R d q = Inr m \<and> eval_all R d qs = Inr ms')"
  by (auto split: sum.splits)

lemma eval_all_Inr:
  "eval_all R d qs = Inr ms \<longleftrightarrow> list_all2 (\<lambda>q m. xpath_eval R d q = Inr m) qs ms"
proof (induction qs arbitrary: ms)
  case Nil
  then show ?case by auto
next
  case (Cons q qs)
  show ?case
    by (simp add: eval_all_Cons_Inr list_all2_Cons1 Cons.IH del: eval_all.simps)
qed

lemma xpath_list_fold:
  "xpath_list (fold add_xpath qs sel) = xpath_list sel @ map strict_xpath qs"
  by (induction qs arbitrary: sel) (auto simp: add_xpath_def)

lemma xpath_list_selector:
  "xpath_list (fold add_xpath qs (selector_init q src)) = map strict_xpath (q # qs)"
  by (simp add: xpath_list_fold selector_init_def)

lemma selector_all_frozen:
  "xml \<noteq> [] \<Longrightarrow>
   selector_all R (Some xml) sel s =
     (resolve R (set_order s (resolved s)) xml (xpath_list sel), sel\<lparr>last_source := Some xml\<rparr>,
      s\<lparr>resolved := resolved s + 1\<rparr>)"
  by (simp add: selector_all_def truthy_def)

lemma wrap_inj: "inj (\<lambda>i. \<lparr>elem_id = i, elem = d ! i\<rparr>)"
  by (rule injI) simp

lemma resolve_Inr:
  "resolve R rk xml qs = Inr r \<longleftrightarrow>
     (\<exists>tree d ms ns. fromstring R xml = Inr tree \<and> retag_all R (node_indices tree) tree = Inr d
        \<and> eval_all R d qs = Inr ms \<and> reduce_intersection rk ms = Inr ns
        \<and> r = map (\<lambda>i. \<lparr>elem_id = i, elem = d ! i\<rparr>) ns)"
  by (auto simp: resolve_def split: sum.splits)

lemma resolve_set:
  assumes "fromstring R xml = Inr tree" "retag_all R (node_indices tree) tree = Inr d"
    and "qs \<noteq> []"
  shows "(\<exists>r. resolve R rk xml qs = Inr r) \<longleftrightarrow> (\<forall>q \<in> set qs. \<exists>m. xpath_eval R d q = Inr m)"
    and "resolve R rk xml qs = Inr r \<Longrightarrow>
      set r = (\<lambda>i. \<lparr>elem_id = i, elem = d ! i\<rparr>) ` (\<Inter>q \<in> set qs. {i. \<exists>m. xpath_eval R d q = Inr m \<and> i \<in> set m})"
proof -
  have ex: "(\<exists>ms. eval_all R d qs = Inr ms) \<longleftrightarrow> (\<forall>q \<in> set qs. \<exists>m. xpath_eval R d q = Inr m)"
    by (induction qs) (auto split: sum.splits)
  have red: "\<exists>ns. reduce_intersection rk ms = Inr ns" if "eval_all R d qs = Inr ms" for ms
  proof -
    from that assms(3) have "ms \<noteq> []" by (auto simp: eval_all_Inr)
    then show ?thesis by (cases ms) (auto simp: reduce_intersection_def)
  qed
  show "(\<exists>r. resolve R rk xml qs = Inr r) \<longleftrightarrow> (\<forall>q \<in> set qs. \<exists>m. xpath_eval R d q = Inr m)"
    unfolding ex [symmetric] using red by (auto simp: resolve_Inr assms(1,2))
  assume "resolve R rk xml qs = Inr r"
  then obtain ms ns where ms: "eval_all R d qs = Inr ms" and ns: "reduce_intersection rk ms = Inr ns"
    and r: "r = map (\<lambda>i. \<lparr>elem_id = i, elem = d ! i\<rparr>) ns"
    by (auto simp: resolve_Inr assms(1,2))
  have l: "list_all2 (\<lambda>q m. xpath_eval R d q = Inr m) qs ms"
    using ms by (simp add: eval_all_Inr)
  have "(\<Inter>y \<in> set ms. set y) = (\<Inter>q \<in> set qs. {i. \<exists>m. xpath_eval R d q = Inr m \<and> i \<in> set m})"
  proof (intro set_eqI iffI)
    fix i
    assume i: "i \<in> (\<Inter>y \<in> set ms. set y)"
    show "i \<in> (\<Inter>q \<in> set qs. {i. \<exists>m. xpath_eval R d q = Inr m \<and> i \<in> set m})"
    proof (intro INT_I CollectI)
      fix q assume "q \<in> set qs"
      then obtain k where k: "k < length qs" "qs ! k = q" by (auto simp: in_set_conv_nth)
      with l have "xpath_eval R d q = Inr (ms ! k)" "ms ! k \<in> set ms"
        by (auto simp: list_all2_conv_all_nth)
      with i show "\<exists>m. xpath_eval R d q = Inr m \<and> i \<in> set m" by auto
    qed
  next
    fix i
    assume i: "i \<in> (\<Inter>q \<in> set qs. {i. \<exists>m. xpath_eval R d q = Inr m \<and> i \<in> set m})"
    show "i \<in> (\<Inter>y \<in> set ms. set y)"
    proof (intro INT_I)
      fix y assume "y \<in> set ms"
      then obtain k where k: "k < length ms" "ms ! k = y" by (auto simp: in_set_conv_nth)
      with l have "xpath_eval R d (qs ! k) = Inr y" "qs ! k \<in> set qs"
        by (auto simp: list_all2_conv_all_nth)
      with i show "i \<in> set y" by auto
    qed
  qed
  then show "set r = (\<lambda>i. \<lparr>elem_id = i, elem = d ! i\<rparr>) ` (\<Inter>q \<in> set qs. {i. \<exists>m. xpath_eval R d q = Inr m \<and> i \<in> set m})"
    using reduce_intersection_set [OF ns] by (simp add: r)
qed

lemma result_set_single:
  assumes "fromstring R xml = Inr tree" "retag_all R (node_indices tree) tree = Inr d"
    and "xpath_eval R d q = Inr m"
  shows "result_set R xml q = (\<lambda>i. \<lparr>elem_id = i, elem = d ! i\<rparr>) ` set m"
  using assms by (simp add: result_set_def resolve_def reduce_intersection_def)

lemma resolve_single:
  assumes "fromstring R xml = Inr tree" "retag_all R (node_indices tree) tree = Inr d"
    and "xpath_eval R d q = Inr m"
  shows "resolve R rk xml [q] = Inr (map (\<lambda>i. \<lparr>elem_id = i, elem = d ! i\<rparr>) m)"
  using assms by (simp add: resolve_def reduce_intersection_def)

lemma resolve_inter:
  assumes r: "resolve R rk xml xs = Inr r"
  shows "\<forall>x \<in> set xs. \<exists>r'. resolve R rk xml [x] = Inr r'"
    and "set r = (\<Inter>x \<in> set xs. result_set R xml x)"
    and "xs \<noteq> []"
proof -
  define w where "w = (\<lambda>d i. \<lparr>elem_id = i, elem = d ! i\<rparr>)"
  define M where "M = (\<lambda>d x. {i. \<exists>m. xpath_eval R d x = Inr m \<and> i \<in> set m})"
  from r obtain tree d ms ns where t: "fromstring R xml = Inr tree"
    and d: "retag_all R (node_indices tree) tree = Inr d"
    and ms: "eval_all R d xs = Inr ms" and ns: "reduce_intersection rk ms = Inr ns"
    unfolding resolve_Inr by blast
  from reduce_intersection_set [OF ns] have "ms \<noteq> []" by simp
  with ms show ne: "xs \<noteq> []" by (cases xs) auto
  have ev: "\<exists>m. xpath_eval R d x = Inr m" if "x \<in> set xs" for x
    using resolve_set(1) [OF t d ne] r that by blast
  show "\<forall>x \<in> set xs. \<exists>r'. resolve R rk xml [x] = Inr r'"
  proof
    fix x assume "x \<in> set xs"
    from ev [OF this] obtain m where "xpath_eval R d x = Inr m" ..
    from resolve_single [OF t d this] show "\<exists>r'. resolve R rk xml [x] = Inr r'" ..
  qed
  have rs: "result_set R xml x = w d ` M d x" if "x \<in> set xs" for x
  proof -
    from ev [OF that] obtain m where m: "xpath_eval R d x = Inr m" ..
    have "M d x = set m" unfolding M_def by (simp add: m)
    then show ?thesis unfolding w_def by (simp add: result_set_single [OF t d m])
  qed
  obtain j where j: "j \<in> set xs" using ne by (cases xs) auto
  have "inj_on (w d) UNIV" unfolding w_def by (rule injI) simp
  then have im: "w d ` (\<Inter>x \<in> set xs. M d x) = (\<Inter>x \<in> set xs. w d ` M d x)"
    by (rule image_INT [OF _ _ j]) simp
  have "set r = w d ` (\<Inter>x \<in> set xs. M d x)"
    unfolding w_def M_def using resolve_set(2) [OF t d ne r] .
  also note im
  also have "(\<Inter>x \<in> set xs. w d ` M d x) = (\<Inter>x \<in> set xs. result_set R xml x)"
    by (rule INF_cong [OF refl]) (simp add: rs)
  finally show "set r = (\<Inter>x \<in> set xs. result_set R xml x)" .
qed

lemma resolve_narrow:
  assumes "resolve R rk xml xs = Inr r" "resolve R rk2 xml (xs @ [y]) = Inr r2"
  shows "set r2 \<subseteq> set r"
proof -
  have "set r2 = (\<Inter>x \<in> set (xs @ [y]). result_set R xml x)"
    using resolve_inter(2) [OF assms(2)] .
  also have "\<dots> \<subseteq> (\<Inter>x \<in> set xs. result_set R xml x)"
    by (rule INT_anti_mono) auto
  also have "\<dots> = set r"
    using resolve_inter(2) [OF assms(1)] by simp
  finally show ?thesis .
qed

text \<open>The set order has no part in the outcome, in the elements found, or in one query.\<close>

lemma reduce_intersection_rank:
  "reduce_intersection rk ms = Inl e \<longleftrightarrow> reduce_intersection rk2 ms = Inl e"
  by (cases ms) (simp_all add: reduce_intersection_def)

lemma resolve_rank_error:
  assumes "resolve R rk xml qs = Inl e"
  shows "resolve R rk2 xml qs = Inl e"
  using assms reduce_intersection_rank [of rk _ e rk2]
  by (auto simp: resolve_def split: sum.splits)

lemma resolve_rank_set:
  assumes "resolve R rk xml qs = Inr r"
  shows "\<exists>r2. resolve R rk2 xml qs = Inr r2 \<and> set r2 = set r"
proof (cases "resolve R rk2 xml qs")
  case (Inl e)
  from resolve_rank_error [OF this, of rk] assms show ?thesis by simp
next
  case (Inr r2)
  have "set r2 = set r"
    using resolve_inter(2) [OF Inr] resolve_inter(2) [OF assms] by simp
  with Inr show ?thesis by simp
qed

lemma resolve_single_rank: "resolve R rk xml [q] = resolve R rk2 xml [q]"
  by (simp add: resolve_def reduce_intersection_def split: sum.splits)

text \<open>With two queries or more the result comes from a set: no element twice.\<close>

lemma set_intersection_distinct: "distinct (set_intersection rk x y)"
  by (simp add: set_intersection_def)

lemma foldl_intersection_distinct:
  "ms \<noteq> [] \<Longrightarrow> distinct (foldl (set_intersection rk) m ms)"
  by (induction ms rule: rev_induct) (simp_all add: set_intersection_distinct)

lemma resolve_distinct:
  assumes "resolve R rk xml qs = Inr r" "2 \<le> length qs"
  shows "distinct r"
proof -
  from assms(1) obtain tree d ms ns where ms: "eval_all R d qs = Inr ms"
    and ns: "reduce_intersection rk ms = Inr ns"
    and r: "r = map (\<lambda>i. \<lparr>elem_id = i, elem = d ! i\<rparr>) ns"
    unfolding resolve_Inr by blast
  from ms have "length ms = length qs"
    by (simp add: eval_all_Inr list_all2_lengthD)
  with assms(2) obtain m y rest where "ms = m # y # rest"
    by (cases ms; cases "tl ms") auto
  with ns have "ns = foldl (set_intersection rk) m (y # rest)"
    by (simp add: reduce_intersection_def)
  then have "distinct ns"
    using foldl_intersection_distinct [of "y # rest" rk m] by simp
  then show ?thesis
    unfolding r by (simp add: distinct_map inj_on_def)
qed

text \<open>
  A resolution succeeds exactly when each query, resolved on its own against the same
  snapshot, succeeds.
\<close>

lemma resolve_ok_iff:
  assumes "qs \<noteq> []"
  shows "(\<exists>r. resolve R rk xml qs = Inr r)
     \<longleftrightarrow> (\<forall>q \<in> set qs. \<exists>r'. resolve R rk2 xml [q] = Inr r')"
proof
  assume "\<exists>r. resolve R rk xml qs = Inr r"
  then obtain r where "resolve R rk xml qs = Inr r" ..
  from resolve_inter(1) [OF this]
  show "\<forall>q \<in> set qs. \<exists>r'. resolve R rk2 xml [q] = Inr r'"
    by (simp add: resolve_single_rank [of R rk2 xml _ rk])
next
  assume a: "\<forall>q \<in> set qs. \<exists>r'. resolve R rk2 xml [q] = Inr r'"
  from assms obtain q0 where q0: "q0 \<in> set qs" by (cases qs) auto
  with a obtain r0 where "resolve R rk2 xml [q0] = Inr r0" by blast
  then obtain tree d where t: "fromstring R xml = Inr tree"
    and d: "retag_all R (node_indices tree) tree = Inr d"
    unfolding resolve_Inr by blast
  have "\<exists>m. xpath_eval R d q = Inr m" if "q \<in> set qs" for q
  proof -
    from a that obtain r' where "resolve R rk2 xml [q] = Inr r'" by blast
    then show ?thesis
      using resolve_set(1) [OF t d, of "[q]" rk2] by auto
  qed
  then show "\<exists>r. resolve R rk xml qs = Inr r"
    using resolve_set(1) [OF t d assms, of rk] by blast
qed

text \<open>What one call of \<open>all\<close> does, for any of the three places the snapshot comes from.\<close>

lemma selector_all_out:
  assumes "selector_all R src sel s = (res, sel', s')"
  shows "\<exists>xml. xml = (if truthy src then the src
                      else if truthy (source sel) then the (source sel)
                      else screen s (clock s))
           \<and> res = resolve R (set_order s (resolved s)) xml (xpath_list sel)
           \<and> sel' = sel\<lparr>last_source := Some xml\<rparr>
           \<and> resolved s' = resolved s + 1 \<and> set_order s' = set_order s"
  using assms
  by (auto simp: selector_all_def dump_hierarchy_def Let_def split: if_splits)

lemma source_fold: "source (fold add_xpath qs sel) = source sel"
  by (induction qs arbitrary: sel) (auto simp: add_xpath_def)

lemma source_selector: "source (fold add_xpath qs (selector_init q src0)) = src0"
  by (simp add: source_fold selector_init_def)

text \<open>
  C1: a selector built from the shorthand \<open>q\<close> with the shorthands \<open>qs\<close> attached is
  resolved by \<open>all\<close>, on the snapshot given to the call, or else the one frozen in the
  selector, or else a fresh dump. The call returns a list exactly when each translated
  query, resolved on its own against that snapshot, returns one. The elements of the list
  are exactly the intersection of the match sets of these independent resolutions; with
  queries attached no element comes twice, and with none the list is the one of the
  single query. A selector with one more query attached, resolved on the same snapshot,
  returns a subset.
\<close>

theorem all_intersection:
  assumes sel: "sel = fold add_xpath qs (selector_init q src0)"
    and out: "selector_all R src sel s = (res, sel', s')"
    and xml: "xml = (if truthy src then the src
                     else if truthy src0 then the src0
                     else screen s (clock s))"
  shows "last_source sel' = Some xml
    \<and> ((\<exists>r. res = Inr r)
         \<longleftrightarrow> (\<forall>q' \<in> set (q # qs). \<exists>r'. resolve R rk xml [strict_xpath q'] = Inr r'))
    \<and> (\<forall>r. res = Inr r \<longrightarrow>
          set r = (\<Inter>q' \<in> set (q # qs). result_set R xml (strict_xpath q'))
        \<and> (qs \<noteq> [] \<longrightarrow> distinct r)
        \<and> (qs = [] \<longrightarrow> resolve R rk xml [strict_xpath q] = Inr r))
    \<and> (\<forall>r q2 src2 s2 r2 sel2 s2'.
          res = Inr r
          \<and> selector_all R src2 (add_xpath q2 sel) s2 = (Inr r2, sel2, s2')
          \<and> last_source sel2 = Some xml \<longrightarrow> set r2 \<subseteq> set r)"
proof -
  have xs: "xpath_list sel = map strict_xpath (q # qs)"
    by (simp only: sel xpath_list_selector)
  have so: "source sel = src0"
    by (simp only: sel source_selector)
  from selector_all_out [OF out] have
    res: "res = resolve R (set_order s (resolved s)) xml (map strict_xpath (q # qs))"
    and sel': "sel' = sel\<lparr>last_source := Some xml\<rparr>"
    by (simp_all add: xml so xs)
  have ne: "map strict_xpath (q # qs) \<noteq> []" by simp
  have 1: "last_source sel' = Some xml" by (simp add: sel')
  have 2: "(\<exists>r. res = Inr r)
         \<longleftrightarrow> (\<forall>q' \<in> set (q # qs). \<exists>r'. resolve R rk xml [strict_xpath q'] = Inr r')"
    unfolding res resolve_ok_iff [OF ne, of R _ xml rk] by (simp only: set_map ball_simps)
  have 3: "set r = (\<Inter>q' \<in> set (q # qs). result_set R xml (strict_xpath q'))
        \<and> (qs \<noteq> [] \<longrightarrow> distinct r)
        \<and> (qs = [] \<longrightarrow> resolve R rk xml [strict_xpath q] = Inr r)" if r: "res = Inr r" for r
  proof (intro conjI impI)
    have rr: "resolve R (set_order s (resolved s)) xml (map strict_xpath (q # qs)) = Inr r"
      using r res by simp
    have "set r = (\<Inter>x \<in> set (map strict_xpath (q # qs)). result_set R xml x)"
      using resolve_inter(2) [OF rr] .
    also have "\<dots> = (\<Inter>q' \<in> set (q # qs). result_set R xml (strict_xpath q'))"
      by (simp only: set_map image_image)
    finally show "set r = (\<Inter>q' \<in> set (q # qs). result_set R xml (strict_xpath q'))" .
    show "distinct r" if "qs \<noteq> []"
    proof -
      from that have "2 \<le> length (map strict_xpath (q # qs))" by (cases qs) simp_all
      with rr show ?thesis by (rule resolve_distinct)
    qed
    show "resolve R rk xml [strict_xpath q] = Inr r" if "qs = []"
      using rr that by (simp add: resolve_single_rank [of R rk xml _ "set_order s (resolved s)"])
  qed
  have 4: "set r2 \<subseteq> set r"
    if h: "res = Inr r \<and> selector_all R src2 (add_xpath q2 sel) s2 = (Inr r2, sel2, s2')
          \<and> last_source sel2 = Some xml" for r q2 src2 s2 r2 sel2 s2'
  proof -
    from h have o2: "selector_all R src2 (add_xpath q2 sel) s2 = (Inr r2, sel2, s2')"
      and l2: "last_source sel2 = Some xml" by simp_all
    from selector_all_out [OF o2] l2
    have "Inr r2 = resolve R (set_order s2 (resolved s2)) xml (xpath_list (add_xpath q2 sel))"
      by auto
    then have b: "resolve R (set_order s2 (resolved s2)) xml
        (map strict_xpath (q # qs) @ [strict_xpath q2]) = Inr r2"
      by (simp add: add_xpath_def xs)
    have a: "resolve R (set_order s (resolved s)) xml (map strict_xpath (q # qs)) = Inr r"
      using h res by simp
    from a b show ?thesis by (rule resolve_narrow)
  qed
  have c3: "\<forall>r. res = Inr r \<longrightarrow>
          set r = (\<Inter>q' \<in> set (q # qs). result_set R xml (strict_xpath q'))
        \<and> (qs \<noteq> [] \<longrightarrow> distinct r)
        \<and> (qs = [] \<longrightarrow> resolve R rk xml [strict_xpath q] = Inr r)"
    using 3 by blast
  have c4: "\<forall>r q2 src2 s2 r2 sel2 s2'.
          res = Inr r
          \<and> selector_all R src2 (add_xpath q2 sel) s2 = (Inr r2, sel2, s2')
          \<and> last_source sel2 = Some xml \<longrightarrow> set r2 \<subseteq> set r"
    using 4 by blast
  show ?thesis
    by (rule conjI [OF 1 conjI [OF 2 conjI [OF c3 c4]]])
qed

theorem all_intersection_witness:
  "fst (selector_all demo_runtime None
          (fold add_xpath [''@id/title''] (selector_init ''Settings'' None)) (demo_session 400))
     = Inr [\<lparr>elem_id = 1, elem = \<lparr>tag = ''android.widget.TextView'',
              attrib = [(''text'', ''Settings''), (''resource-id'', ''id/title''),
                        (''bounds'', ''[0,0][200,50]'')],
              parent = Some 0\<rparr>\<rparr>]
   \<and> set (projr (fst (selector_all demo_runtime None
          (fold add_xpath [''@id/title''] (selector_init ''Settings'' None)) (demo_session 400))))
     = result_set demo_runtime demo_snapshot (strict_xpath ''Settings'')
       \<inter> result_set demo_runtime demo_snapshot (strict_xpath ''@id/title'')
   \<and> elem_id ` result_set demo_runtime demo_snapshot (strict_xpath ''Settings'') = {1}
   \<and> elem_id ` result_set demo_runtime demo_snapshot (strict_xpath ''@id/title'') = {1, 2}"
proof -
  let ?e1 = "\<lparr>elem_id = 1, elem = \<lparr>tag = ''android.widget.TextView'',
      attrib = [(''text'', ''Settings''), (''resource-id'', ''id/title''), (''bounds'', ''[0,0][200,50]'')],
      parent = Some 0\<rparr>\<rparr>"
  let ?e2 = "\<lparr>elem_id = 2, elem = \<lparr>tag = ''android.widget.Switch-Thumb'',
      attrib = [(''text'', ''Wi-Fi''), (''resource-id'', ''id/title''), (''bounds'', ''[0,50][200,100]'')],
      parent = Some 0\<rparr>\<rparr>"
  let ?sel = "fold add_xpath [''@id/title''] (selector_init ''Settings'' None)"
  let ?X = "selector_all demo_runtime None ?sel (demo_session 400)"
  have out: "?X = (fst ?X, fst (snd ?X), snd (snd ?X))"
    by simp
  have x: "demo_snapshot = (if truthy None then the None
                     else if truthy None then the None
                     else screen (demo_session 400) (clock (demo_session 400)))"
    by (simp add: truthy_def demo_session_def)
  have r: "fst ?X = Inr [?e1]"
    by code_simp
  have r1: "resolve demo_runtime (\<lambda>i. i) demo_snapshot [strict_xpath ''Settings''] = Inr [?e1]"
    by code_simp
  have r2: "resolve demo_runtime (\<lambda>i. i) demo_snapshot [strict_xpath ''@id/title''] = Inr [?e1, ?e2]"
    by code_simp
  have s1: "elem_id ` result_set demo_runtime demo_snapshot (strict_xpath ''Settings'') = {1}"
    by (simp add: result_set_def r1)
  have s2: "elem_id ` result_set demo_runtime demo_snapshot (strict_xpath ''@id/title'') = {1, 2}"
    by (simp add: result_set_def r2)
  from all_intersection [OF refl out x, of "\<lambda>i. i"] r
  have "set [?e1] = (\<Inter>q' \<in> set [''Settings'', ''@id/title''].
      result_set demo_runtime demo_snapshot (strict_xpath q'))"
    by blast
  then have "set [?e1] = result_set demo_runtime demo_snapshot (strict_xpath ''Settings'')
       \<inter> result_set demo_runtime demo_snapshot (strict_xpath ''@id/title'')"
    by simp
  then show ?thesis
    using s1 s2 by (simp only: r sum.sel)
qed

section \<open>Resolving again\<close>

lemma resolve_rank_length:
  assumes "resolve R rk xml qs = Inr r1" "resolve R rk2 xml qs = Inr r2"
  shows "set r1 = set r2" and "length r1 = length r2" and "length qs = 1 \<Longrightarrow> r1 = r2"
proof -
  from resolve_rank_set [OF assms(1), of rk2] assms(2) show s: "set r1 = set r2" by simp
  show one: "r1 = r2" if "length qs = 1"
  proof -
    from that obtain q where "qs = [q]" by (cases qs) auto
    with assms resolve_single_rank [of R rk xml q rk2] show ?thesis by simp
  qed
  from resolve_inter(3) [OF assms(1)] have "qs \<noteq> []" .
  then consider "length qs = 1" | "2 \<le> length qs" by (cases qs; cases "tl qs") auto
  then show "length r1 = length r2"
  proof cases
    case 1
    with one show ?thesis by simp
  next
    case 2
    from resolve_distinct [OF assms(1) 2] resolve_distinct [OF assms(2) 2] s
    show ?thesis by (metis distinct_card)
  qed
qed

lemma short_list_eq:
  assumes "set r1 = set r2" "length r1 = length r2" "length r1 \<le> 1"
  shows "r1 = r2"
proof (cases r1)
  case Nil
  with assms show ?thesis by simp
next
  case (Cons a list)
  with assms(3) have "r1 = [a]" by simp
  with assms(1,2) show ?thesis by (cases r2) auto
qed

text \<open>
  C3, as stated: two resolutions of the same frozen snapshot with the same queries return
  the same ordered list, and \<open>get_last_match\<close> the same first element. With two queries
  the list is made from a \<open>set\<close> of nodes, in the order the set is iterated. Here the
  second resolution iterates from the last node: the first call returns the nodes 1, 2 and
  the second 2, 1, on the same snapshot; and two calls of \<open>get_last_match\<close> return node 1
  and node 2.
\<close>

theorem resolve_twice_counterexample:
  "(let sel = add_xpath ''@id/title'' (selector_init ''//*'' (Some demo_snapshot));
        (r1, sel1, s1) = selector_all demo_runtime None sel turning_session;
        (r2, sel2, s2) = selector_all demo_runtime None sel1 s1;
        (g1, sel3, s3) = get_last_match demo_runtime sel2 s2;
        (g2, sel4, s4) = get_last_match demo_runtime sel3 s3
    in map_sum id (map elem_id) r1 = Inr [1, 2]
       \<and> map_sum id (map elem_id) r2 = Inr [2, 1]
       \<and> last_source sel1 = Some demo_snapshot \<and> last_source sel2 = Some demo_snapshot
       \<and> map_sum id elem_id g1 = Inr 1
       \<and> map_sum id elem_id g2 = Inr 2)"
  by code_simp

text \<open>
  C3, amended: two calls of \<open>all\<close> on a selector that resolve the same snapshot end alike,
  with the same error or with two lists of the same elements and the same length, without
  repetition when there are two queries or more. The two lists are equal when the
  selector has one query, or when at most one element is found; and with one query
  \<open>get_last_match\<close> returns the same element, or fails alike, every time.
\<close>

theorem resolve_again:
  assumes o1: "selector_all R src1 sel s1 = (res1, sel1, s1')"
    and o2: "selector_all R src2 sel s2 = (res2, sel2, s2')"
    and same: "last_source sel1 = last_source sel2"
  shows "(\<forall>e. res1 = Inl e \<longleftrightarrow> res2 = Inl e)
    \<and> (\<forall>r1 r2. res1 = Inr r1 \<and> res2 = Inr r2 \<longrightarrow>
          set r1 = set r2 \<and> length r1 = length r2
        \<and> (2 \<le> length (xpath_list sel) \<longrightarrow> distinct r1 \<and> distinct r2)
        \<and> (length (xpath_list sel) = 1 \<or> length r1 \<le> 1 \<longrightarrow> r1 = r2))
    \<and> (length (xpath_list sel) = 1 \<longrightarrow> res1 = res2)
    \<and> (length (xpath_list sel) = 1 \<and> truthy (last_source sel) \<longrightarrow>
          fst (get_last_match R sel s1) = fst (get_last_match R sel s2))"
proof -
  from selector_all_out [OF o1] obtain xml where
    r1: "res1 = resolve R (set_order s1 (resolved s1)) xml (xpath_list sel)"
    and l1: "sel1 = sel\<lparr>last_source := Some xml\<rparr>" by blast
  from selector_all_out [OF o2] obtain xml2 where
    r2': "res2 = resolve R (set_order s2 (resolved s2)) xml2 (xpath_list sel)"
    and l2: "sel2 = sel\<lparr>last_source := Some xml2\<rparr>" by blast
  from same l1 l2 have "xml2 = xml" by simp
  with r2' have r2: "res2 = resolve R (set_order s2 (resolved s2)) xml (xpath_list sel)" by simp
  have a: "\<forall>e. res1 = Inl e \<longleftrightarrow> res2 = Inl e"
    unfolding r1 r2 using resolve_rank_error by blast
  have b: "\<forall>r1 r2. res1 = Inr r1 \<and> res2 = Inr r2 \<longrightarrow>
          set r1 = set r2 \<and> length r1 = length r2
        \<and> (2 \<le> length (xpath_list sel) \<longrightarrow> distinct r1 \<and> distinct r2)
        \<and> (length (xpath_list sel) = 1 \<or> length r1 \<le> 1 \<longrightarrow> r1 = r2)"
  proof (intro allI impI)
    fix x1 x2 assume "res1 = Inr x1 \<and> res2 = Inr x2"
    then have x: "resolve R (set_order s1 (resolved s1)) xml (xpath_list sel) = Inr x1"
      "resolve R (set_order s2 (resolved s2)) xml (xpath_list sel) = Inr x2"
      using r1 r2 by simp_all
    note p = resolve_rank_length [OF x]
    have "x1 = x2" if "length (xpath_list sel) = 1 \<or> length x1 \<le> 1"
      using that p(3) short_list_eq [OF p(1,2)] by blast
    moreover have "distinct x1 \<and> distinct x2" if "2 \<le> length (xpath_list sel)"
      using resolve_distinct [OF x(1) that] resolve_distinct [OF x(2) that] by simp
    ultimately show "set x1 = set x2 \<and> length x1 = length x2
        \<and> (2 \<le> length (xpath_list sel) \<longrightarrow> distinct x1 \<and> distinct x2)
        \<and> (length (xpath_list sel) = 1 \<or> length x1 \<le> 1 \<longrightarrow> x1 = x2)"
      using p(1,2) by blast
  qed
  have one: "resolve R rk xml' (xpath_list sel) = resolve R rk2 xml' (xpath_list sel)"
    if "length (xpath_list sel) = 1" for rk rk2 xml'
  proof -
    from that obtain q where "xpath_list sel = [q]" by (cases "xpath_list sel") auto
    then show ?thesis by (simp add: resolve_single_rank [of R rk xml' q rk2])
  qed
  have c: "length (xpath_list sel) = 1 \<longrightarrow> res1 = res2"
    unfolding r1 r2 using one by blast
  have d: "length (xpath_list sel) = 1 \<and> truthy (last_source sel) \<longrightarrow>
          fst (get_last_match R sel s1) = fst (get_last_match R sel s2)"
  proof
    assume h: "length (xpath_list sel) = 1 \<and> truthy (last_source sel)"
    then obtain x where x: "last_source sel = Some x" "x \<noteq> []"
      by (auto simp: truthy_def split: option.splits)
    have "fst (selector_all R (Some x) sel s) = resolve R (set_order s (resolved s)) x (xpath_list sel)" for s
      using x(2) by (simp add: selector_all_def truthy_def)
    then have "fst (selector_all R (Some x) sel s1) = fst (selector_all R (Some x) sel s2)"
      using one h by simp
    then show "fst (get_last_match R sel s1) = fst (get_last_match R sel s2)"
      by (auto simp: get_last_match_def x(1) split: prod.splits sum.splits list.splits)
  qed
  show ?thesis
    by (rule conjI [OF a conjI [OF b conjI [OF c d]]])
qed

theorem resolve_again_witness:
  "fst (selector_all demo_runtime None (selector_init ''@id/title'' (Some demo_snapshot))
          turning_session)
     = fst (selector_all demo_runtime None (selector_init ''@id/title'' (Some demo_snapshot))
          (turning_session\<lparr>resolved := 1\<rparr>))
   \<and> map_sum id (map elem_id)
        (fst (selector_all demo_runtime None (selector_init ''@id/title'' (Some demo_snapshot))
           (turning_session\<lparr>resolved := 1\<rparr>))) = Inr [1, 2]"
proof -
  let ?sel = "selector_init ''@id/title'' (Some demo_snapshot)"
  let ?X = "selector_all demo_runtime None ?sel turning_session"
  let ?Y = "selector_all demo_runtime None ?sel (turning_session\<lparr>resolved := 1\<rparr>)"
  have o1: "?X = (fst ?X, fst (snd ?X), snd (snd ?X))" by simp
  have o2: "?Y = (fst ?Y, fst (snd ?Y), snd (snd ?Y))" by simp
  have same: "last_source (fst (snd ?X)) = last_source (fst (snd ?Y))"
    by (simp add: selector_all_def truthy_def selector_init_def demo_snapshot_def Let_def)
  have n: "length (xpath_list ?sel) = 1"
    by (simp add: selector_init_def)
  have v: "map_sum id (map elem_id) (fst ?X) = Inr [1, 2]"
    by code_simp
  from resolve_again [OF o1 o2 same] n have "fst ?X = fst ?Y"
    by blast
  with v show ?thesis by simp
qed

section \<open>Retagging by the class attribute\<close>

lemma map_of_filter_key:
  "map_of (filter (\<lambda>kv. fst kv \<noteq> k) a) k' = (if k' = k then None else map_of a k')"
  by (induction a) auto

lemma retag_node_Inr:
  assumes "retag_node R n = Inr n'"
  shows "tag n' = or_str (safe_xmlstr (class_attr n)) ''node''"
    and "map_of (attrib n') ''class'' = None"
    and "k \<noteq> ''class'' \<Longrightarrow> map_of (attrib n') k = map_of (attrib n) k"
    and "parent n' = parent n"
  using assms
  by (auto simp: retag_node_def pop_attr_def Let_def map_of_filter_key
      split: option.splits if_splits)

lemma retag_node_ok:
  "(\<exists>n'. retag_node R n = Inr n') \<longleftrightarrow> tag_valid R (or_str (safe_xmlstr (class_attr n)) ''node'')"
  by (auto simp: retag_node_def pop_attr_def Let_def split: option.splits if_splits)

lemma retag_node_error: "retag_node R n = Inl e \<Longrightarrow> e = ValueError"
  by (auto simp: retag_node_def pop_attr_def Let_def split: option.splits if_splits)

lemma retag_all_nth:
  assumes "retag_all R js d = Inr d'" "distinct js" "\<forall>j \<in> set js. j < length d"
  shows "length d' = length d
    \<and> (\<forall>i < length d. (i \<in> set js \<longrightarrow> retag_node R (d ! i) = Inr (d' ! i))
                        \<and> (i \<notin> set js \<longrightarrow> d' ! i = d ! i))"
  using assms
proof (induction js arbitrary: d)
  case Nil
  then show ?case by simp
next
  case (Cons j js)
  from Cons.prems(1) obtain n where n: "retag_node R (d ! j) = Inr n"
    and rest: "retag_all R js (d[j := n]) = Inr d'"
    by (auto split: sum.splits)
  have j: "j < length d" "j \<notin> set js" "distinct js" "\<forall>i \<in> set js. i < length (d[j := n])"
    using Cons.prems(2,3) by auto
  from Cons.IH [OF rest j(3,4)]
  have len: "length d' = length d"
    and ih: "\<forall>i < length d. (i \<in> set js \<longrightarrow> retag_node R (d[j := n] ! i) = Inr (d' ! i))
                        \<and> (i \<notin> set js \<longrightarrow> d' ! i = d[j := n] ! i)"
    by simp_all
  show ?case
  proof (intro conjI allI impI)
    show "length d' = length d" by (rule len)
  next
    fix i assume i: "i < length d" and m: "i \<in> set (j # js)"
    show "retag_node R (d ! i) = Inr (d' ! i)"
    proof (cases "i = j")
      case True
      with ih j n show ?thesis by simp
    next
      case False
      with m have "i \<in> set js" by simp
      with ih i False show ?thesis by auto
    qed
  next
    fix i assume i: "i < length d" and m: "i \<notin> set (j # js)"
    then show "d' ! i = d ! i" using ih by auto
  qed
qed

lemma retag_all_ok:
  assumes "distinct js" "\<forall>j \<in> set js. j < length d"
  shows "(\<exists>d'. retag_all R js d = Inr d') \<longleftrightarrow> (\<forall>j \<in> set js. \<exists>n. retag_node R (d ! j) = Inr n)"
  using assms
proof (induction js arbitrary: d)
  case Nil
  then show ?case by simp
next
  case (Cons j js)
  show ?case
  proof (cases "retag_node R (d ! j)")
    case (Inl e)
    then show ?thesis by simp
  next
    case (Inr n)
    have j: "j \<notin> set js" "distinct js" "\<forall>i \<in> set js. i < length (d[j := n])"
      using Cons.prems by auto
    have same: "d[j := n] ! i = d ! i" if "i \<in> set js" for i
    proof -
      from that j(1) have "j \<noteq> i" by auto
      then show ?thesis by simp
    qed
    have "(\<exists>d'. retag_all R (j # js) d = Inr d') \<longleftrightarrow> (\<exists>d'. retag_all R js (d[j := n]) = Inr d')"
      by (simp add: Inr)
    also have "\<dots> \<longleftrightarrow> (\<forall>i \<in> set js. \<exists>n'. retag_node R (d[j := n] ! i) = Inr n')"
      using Cons.IH [OF j(2,3)] .
    also have "\<dots> \<longleftrightarrow> (\<forall>i \<in> set js. \<exists>n'. retag_node R (d ! i) = Inr n')"
      using same by simp
    also have "\<dots> \<longleftrightarrow> (\<forall>i \<in> set (j # js). \<exists>n'. retag_node R (d ! i) = Inr n')"
      by (simp add: Inr)
    finally show ?thesis .
  qed
qed

lemma retag_all_error: "retag_all R js d = Inl e \<Longrightarrow> e = ValueError"
  by (induction js arbitrary: d) (auto split: sum.splits dest: retag_node_error)

lemma node_indices_props:
  "distinct (node_indices d)" "\<forall>j \<in> set (node_indices d). j < length d"
  "i < length d \<Longrightarrow> i \<in> set (node_indices d) \<longleftrightarrow> tag (d ! i) = ''node''"
  by (auto simp: node_indices_def)

lemma retag_tree_ok:
  "(\<exists>d. retag_all R (node_indices tree) tree = Inr d)
     \<longleftrightarrow> (\<forall>n \<in> set tree. tag n = ''node'' \<longrightarrow>
            tag_valid R (or_str (safe_xmlstr (class_attr n)) ''node''))"
proof -
  have "(\<exists>d. retag_all R (node_indices tree) tree = Inr d)
      \<longleftrightarrow> (\<forall>j \<in> set (node_indices tree). \<exists>n. retag_node R (tree ! j) = Inr n)"
    by (rule retag_all_ok [OF node_indices_props(1,2)])
  also have "\<dots> \<longleftrightarrow> (\<forall>j < length tree. tag (tree ! j) = ''node'' \<longrightarrow>
      tag_valid R (or_str (safe_xmlstr (class_attr (tree ! j))) ''node''))"
    by (auto simp: node_indices_def retag_node_ok)
  also have "\<dots> \<longleftrightarrow> (\<forall>n \<in> set tree. tag n = ''node'' \<longrightarrow>
      tag_valid R (or_str (safe_xmlstr (class_attr n)) ''node''))"
    by (auto simp: all_set_conv_all_nth)
  finally show ?thesis .
qed

lemma safe_xmlstr_no_dollar: "CHR ''$'' \<notin> set (safe_xmlstr c)"
  by (auto simp: safe_xmlstr_def)

lemma resolve_elems:
  assumes "fromstring R xml = Inr tree" "retag_all R (node_indices tree) tree = Inr d"
    and "resolve R rk xml qs = Inr r" "el \<in> set r"
  shows "elem el = d ! elem_id el"
  using assms by (auto simp: resolve_def split: sum.splits)

lemma resolve_retag_error:
  assumes "fromstring R xml = Inr tree" "\<not> (\<exists>d. retag_all R (node_indices tree) tree = Inr d)"
  shows "resolve R rk xml qs = Inl ValueError"
proof (cases "retag_all R (node_indices tree) tree")
  case (Inl e)
  with retag_all_error [OF Inl] assms(1) show ?thesis by (simp add: resolve_def)
next
  case (Inr d)
  with assms(2) show ?thesis by simp
qed

text \<open>
  C10, as stated: no resolved element exposes a class attribute, and a query on the class
  attribute matches nothing. The loop runs over \<open>//node\<close> only: an element with another
  tag keeps its class attribute, is returned with it, and is matched by a query on it.
\<close>

theorem class_kept_counterexample:
  "resolve demo_runtime (\<lambda>i. i) odd_snapshot [''//*''] =
     Inr [\<lparr>elem_id = 0,
           elem = \<lparr>tag = ''hierarchy'', attrib = [(''class'', ''Screen'')], parent = None\<rparr>\<rparr>,
          \<lparr>elem_id = 1,
           elem = \<lparr>tag = ''a.B-C'', attrib = [(''text'', ''Settings'')], parent = Some 0\<rparr>\<rparr>]
   \<and> resolve demo_runtime (\<lambda>i. i) odd_snapshot [class_query ''Screen''] =
     Inr [\<lparr>elem_id = 0,
           elem = \<lparr>tag = ''hierarchy'', attrib = [(''class'', ''Screen'')], parent = None\<rparr>\<rparr>]"
  by code_simp

text \<open>
  C10, amended: in a resolution of a snapshot that parses, the retagging succeeds exactly
  when the new tag of every element named \<open>node\<close> is a name lxml accepts, and the
  resolution ends with ValueError otherwise. When it succeeds, each element named \<open>node\<close>
  loses its class attribute, keeps its other attributes, and takes as tag the class with
  every \<open>$\<close> replaced by \<open>-\<close> (\<open>node\<close> when the class is absent or empty); every other
  element is left as it is; the elements returned are elements of this tree. When only
  elements named \<open>node\<close> carry a class attribute, no resolved element exposes one, and the
  test \<open>@class='v'\<close> holds of no element of the tree.
\<close>

theorem retag_class:
  assumes t: "fromstring R xml = Inr tree"
  shows "((\<exists>d. retag_all R (node_indices tree) tree = Inr d)
       \<longleftrightarrow> (\<forall>n \<in> set tree. tag n = ''node'' \<longrightarrow>
              tag_valid R (or_str (safe_xmlstr (class_attr n)) ''node'')))
    \<and> (\<not> (\<exists>d. retag_all R (node_indices tree) tree = Inr d) \<longrightarrow>
          resolve R rk xml qs = Inl ValueError)
    \<and> (\<forall>d. retag_all R (node_indices tree) tree = Inr d \<longrightarrow>
          length d = length tree
        \<and> (\<forall>i < length tree.
              (tag (tree ! i) = ''node'' \<longrightarrow>
                  tag (d ! i) = or_str (safe_xmlstr (class_attr (tree ! i))) ''node''
                \<and> (class_attr (tree ! i) = [] \<longrightarrow> tag (d ! i) = ''node'')
                \<and> CHR ''$'' \<notin> set (tag (d ! i))
                \<and> map_of (attrib (d ! i)) ''class'' = None
                \<and> (\<forall>k. k \<noteq> ''class'' \<longrightarrow>
                      map_of (attrib (d ! i)) k = map_of (attrib (tree ! i)) k))
            \<and> (tag (tree ! i) \<noteq> ''node'' \<longrightarrow> d ! i = tree ! i))
        \<and> ((\<forall>n \<in> set tree. tag n \<noteq> ''node'' \<longrightarrow> map_of (attrib n) ''class'' = None) \<longrightarrow>
              select_where (attr_is ''class'' v) d = [])
        \<and> (\<forall>r. resolve R rk xml qs = Inr r \<longrightarrow>
              (\<forall>el \<in> set r. elem el = d ! elem_id el)
            \<and> ((\<forall>n \<in> set tree. tag n \<noteq> ''node'' \<longrightarrow> map_of (attrib n) ''class'' = None) \<longrightarrow>
                  (\<forall>el \<in> set r. elem_id el < length tree \<longrightarrow>
                     map_of (attrib (elem el)) ''class'' = None))))
    \<and> (\<forall>r. resolve R rk xml qs = Inr r \<longrightarrow>
          (\<exists>d. retag_all R (node_indices tree) tree = Inr d))"
proof -
  have c1: "(\<exists>d. retag_all R (node_indices tree) tree = Inr d)
       \<longleftrightarrow> (\<forall>n \<in> set tree. tag n = ''node'' \<longrightarrow>
              tag_valid R (or_str (safe_xmlstr (class_attr n)) ''node''))"
    by (rule retag_tree_ok)
  have c2: "\<not> (\<exists>d. retag_all R (node_indices tree) tree = Inr d) \<longrightarrow>
          resolve R rk xml qs = Inl ValueError"
    using resolve_retag_error [OF t] by blast
  have c4: "\<forall>r. resolve R rk xml qs = Inr r \<longrightarrow>
          (\<exists>d. retag_all R (node_indices tree) tree = Inr d)"
    using t by (auto simp: resolve_def split: sum.splits)
  have c3: "length d = length tree
        \<and> (\<forall>i < length tree.
              (tag (tree ! i) = ''node'' \<longrightarrow>
                  tag (d ! i) = or_str (safe_xmlstr (class_attr (tree ! i))) ''node''
                \<and> (class_attr (tree ! i) = [] \<longrightarrow> tag (d ! i) = ''node'')
                \<and> CHR ''$'' \<notin> set (tag (d ! i))
                \<and> map_of (attrib (d ! i)) ''class'' = None
                \<and> (\<forall>k. k \<noteq> ''class'' \<longrightarrow>
                      map_of (attrib (d ! i)) k = map_of (attrib (tree ! i)) k))
            \<and> (tag (tree ! i) \<noteq> ''node'' \<longrightarrow> d ! i = tree ! i))
        \<and> ((\<forall>n \<in> set tree. tag n \<noteq> ''node'' \<longrightarrow> map_of (attrib n) ''class'' = None) \<longrightarrow>
              select_where (attr_is ''class'' v) d = [])
        \<and> (\<forall>r. resolve R rk xml qs = Inr r \<longrightarrow>
              (\<forall>el \<in> set r. elem el = d ! elem_id el)
            \<and> ((\<forall>n \<in> set tree. tag n \<noteq> ''node'' \<longrightarrow> map_of (attrib n) ''class'' = None) \<longrightarrow>
                  (\<forall>el \<in> set r. elem_id el < length tree \<longrightarrow>
                     map_of (attrib (elem el)) ''class'' = None)))"
    if d: "retag_all R (node_indices tree) tree = Inr d" for d
  proof -
    note nth = retag_all_nth [OF d node_indices_props(1,2)]
    have len: "length d = length tree" using nth by simp
    have node: "retag_node R (tree ! i) = Inr (d ! i)"
      if "i < length tree" "tag (tree ! i) = ''node''" for i
      using nth that node_indices_props(3) [OF that(1)] by simp
    have other: "d ! i = tree ! i" if "i < length tree" "tag (tree ! i) \<noteq> ''node''" for i
      using nth that node_indices_props(3) [OF that(1)] by simp
    have tg: "tag (d ! i) = or_str (safe_xmlstr (class_attr (tree ! i))) ''node''"
      if "i < length tree" "tag (tree ! i) = ''node''" for i
      using retag_node_Inr(1) [OF node [OF that]] .
    have nodollar: "CHR ''$'' \<notin> set (tag (d ! i))"
      if "i < length tree" "tag (tree ! i) = ''node''" for i
      using tg [OF that] safe_xmlstr_no_dollar by (auto simp: or_str_def split: if_splits)
    have noclass: "map_of (attrib (d ! i)) ''class'' = None"
      if a: "\<forall>n \<in> set tree. tag n \<noteq> ''node'' \<longrightarrow> map_of (attrib n) ''class'' = None"
        and i: "i < length tree" for i
    proof (cases "tag (tree ! i) = ''node''")
      case True
      from retag_node_Inr(2) [OF node [OF i True]] show ?thesis .
    next
      case False
      with a i have "map_of (attrib (tree ! i)) ''class'' = None" by simp
      with other [OF i False] show ?thesis by simp
    qed
    have main: "\<forall>i < length tree.
              (tag (tree ! i) = ''node'' \<longrightarrow>
                  tag (d ! i) = or_str (safe_xmlstr (class_attr (tree ! i))) ''node''
                \<and> (class_attr (tree ! i) = [] \<longrightarrow> tag (d ! i) = ''node'')
                \<and> CHR ''$'' \<notin> set (tag (d ! i))
                \<and> map_of (attrib (d ! i)) ''class'' = None
                \<and> (\<forall>k. k \<noteq> ''class'' \<longrightarrow>
                      map_of (attrib (d ! i)) k = map_of (attrib (tree ! i)) k))
            \<and> (tag (tree ! i) \<noteq> ''node'' \<longrightarrow> d ! i = tree ! i)"
    proof (intro allI impI conjI)
      fix i assume i: "i < length tree" and n: "tag (tree ! i) = ''node''"
      show "tag (d ! i) = or_str (safe_xmlstr (class_attr (tree ! i))) ''node''"
        using tg [OF i n] .
      show "tag (d ! i) = ''node''" if "class_attr (tree ! i) = []"
        using tg [OF i n] that by (simp add: or_str_def safe_xmlstr_def)
      show "CHR ''$'' \<notin> set (tag (d ! i))"
        using nodollar [OF i n] .
      show "map_of (attrib (d ! i)) ''class'' = None"
        using retag_node_Inr(2) [OF node [OF i n]] .
      fix k assume "k \<noteq> ''class''"
      then show "map_of (attrib (d ! i)) k = map_of (attrib (tree ! i)) k"
        using retag_node_Inr(3) [OF node [OF i n]] by simp
    next
      fix i assume "i < length tree" "tag (tree ! i) \<noteq> ''node''"
      then show "d ! i = tree ! i" by (rule other)
    qed
    have sel: "(\<forall>n \<in> set tree. tag n \<noteq> ''node'' \<longrightarrow> map_of (attrib n) ''class'' = None) \<longrightarrow>
              select_where (attr_is ''class'' v) d = []"
      using noclass by (auto simp: select_where_def attr_is_def filter_empty_conv len)
    have res: "\<forall>r. resolve R rk xml qs = Inr r \<longrightarrow>
              (\<forall>el \<in> set r. elem el = d ! elem_id el)
            \<and> ((\<forall>n \<in> set tree. tag n \<noteq> ''node'' \<longrightarrow> map_of (attrib n) ''class'' = None) \<longrightarrow>
                  (\<forall>el \<in> set r. elem_id el < length tree \<longrightarrow>
                     map_of (attrib (elem el)) ''class'' = None))"
    proof (intro allI impI conjI ballI)
      fix r el assume r: "resolve R rk xml qs = Inr r" and e: "el \<in> set r"
      show "elem el = d ! elem_id el"
        using resolve_elems [OF t d r e] .
    next
      fix r el assume r: "resolve R rk xml qs = Inr r" and e: "el \<in> set r"
        and a: "\<forall>n \<in> set tree. tag n \<noteq> ''node'' \<longrightarrow> map_of (attrib n) ''class'' = None"
        and i: "elem_id el < length tree"
      from noclass [OF a i] resolve_elems [OF t d r e]
      show "map_of (attrib (elem el)) ''class'' = None" by simp
    qed
    show ?thesis
      by (rule conjI [OF len conjI [OF main conjI [OF sel res]]])
  qed
  then have c3': "\<forall>d. retag_all R (node_indices tree) tree = Inr d \<longrightarrow>
          length d = length tree
        \<and> (\<forall>i < length tree.
              (tag (tree ! i) = ''node'' \<longrightarrow>
                  tag (d ! i) = or_str (safe_xmlstr (class_attr (tree ! i))) ''node''
                \<and> (class_attr (tree ! i) = [] \<longrightarrow> tag (d ! i) = ''node'')
                \<and> CHR ''$'' \<notin> set (tag (d ! i))
                \<and> map_of (attrib (d ! i)) ''class'' = None
                \<and> (\<forall>k. k \<noteq> ''class'' \<longrightarrow>
                      map_of (attrib (d ! i)) k = map_of (attrib (tree ! i)) k))
            \<and> (tag (tree ! i) \<noteq> ''node'' \<longrightarrow> d ! i = tree ! i))
        \<and> ((\<forall>n \<in> set tree. tag n \<noteq> ''node'' \<longrightarrow> map_of (attrib n) ''class'' = None) \<longrightarrow>
              select_where (attr_is ''class'' v) d = [])
        \<and> (\<forall>r. resolve R rk xml qs = Inr r \<longrightarrow>
              (\<forall>el \<in> set r. elem el = d ! elem_id el)
            \<and> ((\<forall>n \<in> set tree. tag n \<noteq> ''node'' \<longrightarrow> map_of (attrib n) ''class'' = None) \<longrightarrow>
                  (\<forall>el \<in> set r. elem_id el < length tree \<longrightarrow>
                     map_of (attrib (elem el)) ''class'' = None)))"
    by (intro allI impI)
  show ?thesis
    by (rule conjI [OF c1 conjI [OF c2 conjI [OF c3' c4]]])
qed

theorem retag_class_witness:
  "retag_all demo_runtime (node_indices demo_tree) demo_tree =
     Inr [\<lparr>tag = ''hierarchy'', attrib = [(''rotation'', ''0'')], parent = None\<rparr>,
          \<lparr>tag = ''android.widget.TextView'',
           attrib = [(''text'', ''Settings''), (''resource-id'', ''id/title''),
                     (''bounds'', ''[0,0][200,50]'')],
           parent = Some 0\<rparr>,
          \<lparr>tag = ''android.widget.Switch-Thumb'',
           attrib = [(''text'', ''Wi-Fi''), (''resource-id'', ''id/title''),
                     (''bounds'', ''[0,50][200,100]'')],
           parent = Some 0\<rparr>]
   \<and> map (\<lambda>el. map_of (attrib (elem el)) ''class'')
        (projr (resolve demo_runtime (\<lambda>i. i) demo_snapshot [strict_xpath ''@id/title'']))
       = [None, None]
   \<and> map (\<lambda>el. tag (elem el))
        (projr (resolve demo_runtime (\<lambda>i. i) demo_snapshot [strict_xpath ''@id/title'']))
       = [''android.widget.TextView'', ''android.widget.Switch-Thumb'']
   \<and> select_where (attr_is ''class'' ''android.widget.TextView'')
        (projr (retag_all demo_runtime (node_indices demo_tree) demo_tree)) = []"
proof -
  let ?n1 = "\<lparr>tag = ''android.widget.TextView'',
      attrib = [(''text'', ''Settings''), (''resource-id'', ''id/title''), (''bounds'', ''[0,0][200,50]'')],
      parent = Some 0\<rparr>"
  let ?n2 = "\<lparr>tag = ''android.widget.Switch-Thumb'',
      attrib = [(''text'', ''Wi-Fi''), (''resource-id'', ''id/title''), (''bounds'', ''[0,50][200,100]'')],
      parent = Some 0\<rparr>"
  let ?d = "[\<lparr>tag = ''hierarchy'', attrib = [(''rotation'', ''0'')], parent = None\<rparr>, ?n1, ?n2]"
  let ?r = "[\<lparr>elem_id = 1, elem = ?n1\<rparr>, \<lparr>elem_id = 2, elem = ?n2\<rparr>]"
  have t: "fromstring demo_runtime demo_snapshot = Inr demo_tree"
    by (simp add: demo_runtime_def)
  have d: "retag_all demo_runtime (node_indices demo_tree) demo_tree = Inr ?d"
    by code_simp
  have r: "resolve demo_runtime (\<lambda>i. i) demo_snapshot [strict_xpath ''@id/title''] = Inr ?r"
    by code_simp
  have h: "\<forall>n \<in> set demo_tree. tag n \<noteq> ''node'' \<longrightarrow> map_of (attrib n) ''class'' = None"
    by (simp add: demo_tree_def)
  have l: "length demo_tree = 3"
    by (simp add: demo_tree_def)
  note w = retag_class [OF t, of "\<lambda>i. i" "[strict_xpath ''@id/title'']" "''android.widget.TextView''"]
  from w d h have s: "select_where (attr_is ''class'' ''android.widget.TextView'') ?d = []"
    by blast
  from w d r h
  have "\<forall>el \<in> set ?r. elem_id el < length demo_tree \<longrightarrow> map_of (attrib (elem el)) ''class'' = None"
    by blast
  then have c: "\<forall>el \<in> set ?r. map_of (attrib (elem el)) ''class'' = None"
    using l by simp
  show ?thesis
    using c s by (simp only: r d sum.sel) simp
qed

section \<open>Clicking without waiting\<close>

text \<open>
  One resolution and no retry: with no match the result is the IndexError of \<open>[0]\<close> and
  nothing is sent, and with a match the click goes to the center of the first one.
\<close>

lemma click_nowait_no_match:
  assumes "selector_all R None sel s = (Inr [], sel', s')"
  shows "click_nowait R sel s = (Inl IndexError, sel', s')"
  using assms by (simp add: click_nowait_def)

lemma click_nowait_match:
  assumes "selector_all R None sel s = (Inr (el # rest), sel', s')" "center el = Inr (x, y)"
  shows "click_nowait R sel s = (fst (send_click x y s'), sel', snd (send_click x y s'))"
  using assms by (simp add: click_nowait_def split: prod.splits)

lemma send_click_plain:
  assumes "click_before_delay s = 0" "click_after_delay s = None"
  shows "send_click x y s = (Inr (), s\<lparr>actions := actions s @ [Click x y]\<rparr>)"
  using assms by (simp add: send_click_def Let_def)

lemma center_settings:
  "center \<lparr>elem_id = 1, elem = \<lparr>tag = ''android.widget.TextView'',
      attrib = [(''text'', ''Settings''), (''resource-id'', ''id/title''),
                (''bounds'', ''[0,0][200,50]'')],
      parent = Some 0\<rparr>\<rparr> = Inr (100, 25)"
proof -
  let ?e = "\<lparr>elem_id = 1, elem = \<lparr>tag = ''android.widget.TextView'',
      attrib = [(''text'', ''Settings''), (''resource-id'', ''id/title''),
                (''bounds'', ''[0,0][200,50]'')],
      parent = Some 0\<rparr>\<rparr>"
  have r: "rect ?e = Inr (0, 0, 200, 50)"
    by code_simp
  have t: "trunc 100 = 100" "trunc 25 = 25"
    by (simp_all add: trunc_def)
  have h: "int_times_float 200 (1 / 2) = Inr 100" "int_times_float 50 (1 / 2) = Inr 25"
    using int_times_float_half [of 200] int_times_float_half [of 50] by (simp_all add: t)
  show ?thesis
    unfolding center_def offset_def r by (simp add: h)
qed

text \<open>
  C9. At a query that matches nothing, \<open>click_nowait\<close> dumps once and ends with
  IndexError, no click sent, where \<open>get\<close> on the same selector ends with
  XPathElementNotFoundError. At a query that matches, it dumps once and clicks the center
  of the first match.
\<close>

theorem click_nowait_index_error:
  "fst (click_nowait demo_runtime (selector_init ''Missing'' None) (demo_session 400))
     = Inl IndexError
   \<and> actions (snd (snd (click_nowait demo_runtime (selector_init ''Missing'' None)
        (demo_session 400)))) = [Dump]
   \<and> fst (get demo_runtime (selector_init ''Missing'' None) (demo_session 400))
     = Inl XPathElementNotFoundError
   \<and> fst (click_nowait demo_runtime (selector_init ''Settings'' None) (demo_session 400))
     = Inr ()
   \<and> actions (snd (snd (click_nowait demo_runtime (selector_init ''Settings'' None)
        (demo_session 400)))) = [Dump, Click 100 25]"
proof -
  let ?e = "\<lparr>elem_id = 1, elem = \<lparr>tag = ''android.widget.TextView'',
      attrib = [(''text'', ''Settings''), (''resource-id'', ''id/title''),
                (''bounds'', ''[0,0][200,50]'')],
      parent = Some 0\<rparr>\<rparr>"
  let ?A = "selector_all demo_runtime None (selector_init ''Settings'' None) (demo_session 400)"
  have m: "fst (click_nowait demo_runtime (selector_init ''Missing'' None) (demo_session 400))
       = Inl IndexError
     \<and> actions (snd (snd (click_nowait demo_runtime (selector_init ''Missing'' None)
          (demo_session 400)))) = [Dump]
     \<and> fst (get demo_runtime (selector_init ''Missing'' None) (demo_session 400))
       = Inl XPathElementNotFoundError"
    by code_simp
  have a: "fst ?A = Inr [?e]"
    by code_simp
  have b: "actions (snd (snd ?A)) = [Dump]" "click_before_delay (snd (snd ?A)) = 0"
    "click_after_delay (snd (snd ?A)) = None"
    by code_simp+
  have A: "?A = (Inr [?e], fst (snd ?A), snd (snd ?A))"
    using a by (metis prod.collapse)
  note c = click_nowait_match [OF A center_settings]
  have "fst (click_nowait demo_runtime (selector_init ''Settings'' None) (demo_session 400))
     = Inr ()
   \<and> actions (snd (snd (click_nowait demo_runtime (selector_init ''Settings'' None)
        (demo_session 400)))) = [Dump, Click 100 25]"
    unfolding c by (simp add: send_click_plain [OF b(2,3)] b(1))
  with m show ?thesis by simp
qed

section \<open>Waiting\<close>











end
